theory Spec2Isabelle
  imports Main "HOL-Library.AList"
begin

section \<open>Strings, errors and path verbs\<close>

text \<open>
  A Python string is modelled as the list of its bytes (its UTF-8 encoding), which is what
  \<open>string\<close> is in HOL.  Every \<open>raise ValueError(msg)\<close> of the source is the value
  \<open>Inl (ValueError msg)\<close>; indexing an empty sequence with \<open>[-1]\<close> is \<open>Inl IndexError\<close>.
\<close>

datatype error = ValueError string | IndexError

text \<open>Python's \<open>s.split(sep)\<close> for a one-character separator: never the empty list.\<close>

fun str_split :: "char \<Rightarrow> string \<Rightarrow> string list" where
  "str_split sep [] = [[]]"
| "str_split sep (c # cs) =
     (if c = sep then [] # str_split sep cs
      else (case str_split sep cs of [] \<Rightarrow> [[c]] | x # xs \<Rightarrow> (c # x) # xs))"

text \<open>Python's \<open>sep.join(xs)\<close>.\<close>

fun str_join :: "string \<Rightarrow> string list \<Rightarrow> string" where
  "str_join sep [] = []"
| "str_join sep [x] = x"
| "str_join sep (x # y # ys) = x @ sep @ str_join sep (y # ys)"

text \<open>The verbs of the \<open>fspathverbs\<close> package, which the parsers dispatch on.\<close>

datatype verb = Root | Parent | Current | Child string

definition path_segments :: "string \<Rightarrow> string list" where
  "path_segments path = filter (\<lambda>s. s \<noteq> []) (str_split (CHR ''/'') path)"

definition has_root :: "string \<Rightarrow> bool" where
  "has_root path = (case path of [] \<Rightarrow> False | c # _ \<Rightarrow> c = CHR ''/'')"

definition verb_of_segment :: "string \<Rightarrow> verb" where
  "verb_of_segment s = (if s = ''.'' then Current else if s = ''..'' then Parent else Child s)"

text \<open>
  Modelled from the spec: \<open>compile_to_fspathverbs\<close> belongs to the third-party package
  \<open>fspathverbs\<close>, whose code is not among the sources.  With \<open>posixpath.split\<close> (which
  is also \<open>os.path.split\<close> on a POSIX system) it turns a path string into its verbs: a
  leading root marker gives \<open>Root\<close>, then every non-empty segment gives \<open>Current\<close> for
  \<open>.\<close>, \<open>Parent\<close> for \<open>..\<close> and \<open>Child\<close> of the segment otherwise.
\<close>

definition compile_to_fspathverbs :: "string \<Rightarrow> verb list" where
  "compile_to_fspathverbs path =
     (if has_root path then [Root] else []) @ map verb_of_segment (path_segments path)"

section \<open>The path parsers\<close>

text \<open>
  The loop of \<open>relative_local_path_to_relative_local_path_components\<close> over the verbs.
  \<open>components.pop()\<close> of a copy-on-write list returns the list without its last element;
  the final \<open>else\<close> of the source is reached by \<open>Root\<close> only.
\<close>

fun relative_local_path_verbs :: "string \<Rightarrow> verb list \<Rightarrow> string list \<Rightarrow> error + string list" where
  "relative_local_path_verbs path [] components = Inr components"
| "relative_local_path_verbs path (v # verbs) components =
     (case v of
        Parent \<Rightarrow>
          (if components \<noteq> [] then relative_local_path_verbs path verbs (butlast components)
           else Inl (ValueError (''Invalid relative local path: '' @ path)))
      | Current \<Rightarrow> relative_local_path_verbs path verbs components
      | Child child \<Rightarrow> relative_local_path_verbs path verbs (components @ [child])
      | Root \<Rightarrow> Inl (ValueError (''Invalid relative local path: '' @ path)))"

definition relative_local_path_to_relative_local_path_components :: "string \<Rightarrow> error + string list" where
  "relative_local_path_to_relative_local_path_components relative_local_path =
     relative_local_path_verbs relative_local_path (compile_to_fspathverbs relative_local_path) []"

text \<open>The loop of \<open>remote_path_to_remote_path_components\<close>: \<open>Root\<close> clears the list.\<close>

fun remote_path_verbs :: "string \<Rightarrow> verb list \<Rightarrow> string list \<Rightarrow> error + string list" where
  "remote_path_verbs path [] components = Inr components"
| "remote_path_verbs path (v # verbs) components =
     (case v of
        Root \<Rightarrow> remote_path_verbs path verbs []
      | Parent \<Rightarrow>
          (if components \<noteq> [] then remote_path_verbs path verbs (butlast components)
           else Inl (ValueError (''Invalid remote path: '' @ path)))
      | Current \<Rightarrow> remote_path_verbs path verbs components
      | Child child \<Rightarrow> remote_path_verbs path verbs (components @ [child]))"

definition remote_path_to_remote_path_components :: "string \<Rightarrow> error + string list" where
  "remote_path_to_remote_path_components remote_path =
     remote_path_verbs remote_path (compile_to_fspathverbs remote_path) []"

text \<open>
  The normal form in the words of the specification: over the segments of a path,
  \<open>.\<close> is a no-op, \<open>..\<close> removes the last component and any other segment is appended.
  \<open>None\<close> says that some \<open>..\<close> was applied to the empty sequence.
\<close>

fun normalize_segments :: "string list \<Rightarrow> string list \<Rightarrow> string list option" where
  "normalize_segments [] acc = Some acc"
| "normalize_segments (s # ss) acc =
     (if s = ''.'' then normalize_segments ss acc
      else if s = ''..'' then (if acc = [] then None else normalize_segments ss (butlast acc))
      else normalize_segments ss (acc @ [s]))"

definition normal_form :: "string \<Rightarrow> string list option" where
  "normal_form path = normalize_segments (path_segments path) []"

definition pops_past_root :: "string \<Rightarrow> bool" where
  "pops_past_root path = (normal_form path = None)"


text \<open>
  The invariant of a component of a path: not empty, no separator in it, and neither
  \<open>.\<close> nor \<open>..\<close>.
\<close>

definition valid_component :: "string \<Rightarrow> bool" where
  "valid_component c \<longleftrightarrow> c \<noteq> [] \<and> CHR ''/'' \<notin> set c \<and> c \<noteq> ''.'' \<and> c \<noteq> ''..''"

section \<open>Resource locators\<close>

text \<open>
  \<open>urllib\<close>'s \<open>quote\<close> with its default \<open>safe = '/'\<close>: every byte that is not a
  letter, a digit or one of \<open>_.-~/\<close> becomes \<open>%XX\<close> with upper-case hexadecimal digits.
\<close>

definition always_safe :: "char \<Rightarrow> bool" where
  "always_safe c =
     (c \<in> set ''ABCDEFGHIJKLMNOPQRSTUVWXYZabcdefghijklmnopqrstuvwxyz0123456789_.-~'')"

definition hex_digit :: "nat \<Rightarrow> char" where
  "hex_digit d = ''0123456789ABCDEF'' ! d"

definition quote_byte :: "char \<Rightarrow> string" where
  "quote_byte c =
     (if always_safe c \<or> c = CHR ''/'' then [c]
      else [CHR ''%'', hex_digit (of_char c div 16), hex_digit (of_char c mod 16)])"

definition quote :: "string \<Rightarrow> string" where
  "quote s = concat (map quote_byte s)"

text \<open>
  \<open>urllib\<close>'s \<open>unquote\<close> on bytes: \<open>%\<close> followed by two hexadecimal digits (of
  either case) is the byte they denote; any other \<open>%\<close> stays as it is.
\<close>

definition hex_value :: "char \<Rightarrow> nat option" where
  "hex_value c =
     (if c \<in> set ''0123456789'' then Some (of_char c - 48)
      else if c \<in> set ''ABCDEF'' then Some (of_char c - 55)
      else if c \<in> set ''abcdef'' then Some (of_char c - 87)
      else None)"

fun unquote :: "string \<Rightarrow> string" where
  "unquote [] = []"
| "unquote (c # h1 # h2 # rest) =
     (if c = CHR ''%'' then
        (case (hex_value h1, hex_value h2) of
           (Some a, Some b) \<Rightarrow> char_of (16 * a + b) # unquote rest
         | _ \<Rightarrow> c # unquote (h1 # h2 # rest))
      else c # unquote (h1 # h2 # rest))"
| "unquote (c # cs) = c # unquote cs"

text \<open>The format \<open>%d\<close> of an integer.\<close>

fun str_of_nat :: "nat \<Rightarrow> string" where
  "str_of_nat n =
     (if n < 10 then [''0123456789'' ! n]
      else str_of_nat (n div 10) @ [''0123456789'' ! (n mod 10)])"

declare str_of_nat.simps [simp del]

definition str_of_int :: "int \<Rightarrow> string" where
  "str_of_int i = (if i < 0 then CHR ''-'' # str_of_nat (nat (- i)) else str_of_nat (nat i))"

text \<open>
  The fields of \<open>SimpleDAVClient\<close> that the model reads.  The third field,
  \<open>session\<close>, is the transport; it is a parameter of every operation that uses it.
\<close>

record client =
  host :: string
  port :: int

text \<open>\<open>'http://%s:%d/%s' % (host, port, '/'.join(map(quote, remote_path_components)))\<close>\<close>

definition remote_path_components_to_href :: "string \<Rightarrow> int \<Rightarrow> string list \<Rightarrow> string" where
  "remote_path_components_to_href h p remote_path_components =
     ''http://'' @ h @ '':'' @ str_of_int p @ ''/'' @ str_join ''/'' (map quote remote_path_components)"

section \<open>Directory creation\<close>

text \<open>
  The transport's answer to a \<open>MKCOL\<close> request is a parameter: \<open>mkcol url srv\<close> is
  the status code and the state of the world after the request, for any type \<open>'srv\<close>
  of states.  \<open>create_directory_from_remote_path_components\<close> succeeds on status 201.
\<close>

definition create_directory_from_remote_path_components ::
  "client \<Rightarrow> (string \<Rightarrow> 'srv \<Rightarrow> nat \<times> 'srv) \<Rightarrow> string list \<Rightarrow> 'srv \<Rightarrow> bool \<times> 'srv" where
  "create_directory_from_remote_path_components self mkcol remote_path_components srv =
     (let remote_path_href =
            remote_path_components_to_href (host self) (port self) remote_path_components;
          (status_code, srv') = mkcol remote_path_href srv
      in (status_code = 201, srv'))"

text \<open>
  \<open>create_directories_from_remote_path_components\<close>, with \<open>None\<close> for a call that does
  not return.  \<open>remote_path_components[:-1]\<close> is \<open>butlast\<close>.
\<close>

partial_function (option) create_directories_from_remote_path_components ::
  "client \<Rightarrow> (string \<Rightarrow> 'srv \<Rightarrow> nat \<times> 'srv) \<Rightarrow> string list \<Rightarrow> 'srv \<Rightarrow> (bool \<times> 'srv) option" where
  "create_directories_from_remote_path_components self mkcol remote_path_components srv =
     (if remote_path_components = [] then Some (True, srv)
      else
        (let (created, srv1) =
               create_directory_from_remote_path_components self mkcol remote_path_components srv
         in if created then Some (True, srv1)
            else
              Option.bind
                (create_directories_from_remote_path_components self mkcol
                   (butlast remote_path_components) srv1)
                (\<lambda>(parents_created, srv2).
                   if parents_created then
                     Some (create_directory_from_remote_path_components self mkcol
                             remote_path_components srv2)
                   else Some (False, srv2))))"


text \<open>
  A transport that also records the locator of every request it receives, in order, so
  that requests can be counted.
\<close>

definition logged :: "(string \<Rightarrow> 'srv \<Rightarrow> nat \<times> 'srv) \<Rightarrow> string \<Rightarrow> 'srv \<times> string list \<Rightarrow> nat \<times> ('srv \<times> string list)" where
  "logged request url state =
     (case state of (srv, log) \<Rightarrow>
        (case request url srv of (status_code, srv') \<Rightarrow> (status_code, (srv', log @ [url]))))"

text \<open>
  A reference server for \<open>MKCOL\<close>, after RFC 4918: its state is the set of the
  locators of the collections that exist; a request for an existing collection is
  answered with 405, a request whose parent collection is missing with 409, and any
  other request creates the collection and is answered with 201.  \<open>root\<close> is the
  locator of the root collection, which is its own parent.
\<close>

definition url_parent :: "string \<Rightarrow> string \<Rightarrow> string" where
  "url_parent root url =
     (let pre = rev (dropWhile (\<lambda>c. c \<noteq> CHR ''/'') (rev url))
      in if pre = root then root else butlast pre)"

definition dav_mkcol :: "string \<Rightarrow> string \<Rightarrow> string set \<Rightarrow> nat \<times> string set" where
  "dav_mkcol root url collections =
     (if url \<in> collections then (405, collections)
      else if url_parent root url \<in> collections then (201, insert url collections)
      else (409, collections))"

section \<open>The standard library's path functions\<close>

text \<open>
  \<open>href_to_remote_path_components\<close> calls \<open>posixpath.relpath\<close> on the locator.  These
  are the definitions of Python's \<open>posixpath\<close> module that it reaches.
\<close>

text \<open>\<open>s.startswith(p)\<close>\<close>

definition startswith :: "string \<Rightarrow> string \<Rightarrow> bool" where
  "startswith s p = (take (length p) s = p)"

text \<open>\<open>posixpath.join(a, b)\<close> for two arguments.\<close>

definition posixpath_join :: "string \<Rightarrow> string \<Rightarrow> string" where
  "posixpath_join a b =
     (if startswith b ''/'' then b
      else if a = [] \<or> last a = CHR ''/'' then a @ b
      else a @ ''/'' @ b)"

text \<open>
  \<open>posixpath.normpath\<close>: the number of initial slashes it keeps (two are kept, one
  or three and more become one), and its loop over the components.
\<close>

definition initial_slashes :: "string \<Rightarrow> nat" where
  "initial_slashes path =
     (if \<not> startswith path ''/'' then 0
      else if startswith path ''//'' \<and> \<not> startswith path ''///'' then 2
      else 1)"

fun normpath_comps :: "nat \<Rightarrow> string list \<Rightarrow> string list \<Rightarrow> string list" where
  "normpath_comps i [] new_comps = new_comps"
| "normpath_comps i (seg # comps) new_comps =
     (if seg = [] \<or> seg = ''.'' then normpath_comps i comps new_comps
      else if seg \<noteq> ''..'' \<or> (i = 0 \<and> new_comps = []) \<or>
              (new_comps \<noteq> [] \<and> last new_comps = ''..'')
      then normpath_comps i comps (new_comps @ [seg])
      else if new_comps \<noteq> [] then normpath_comps i comps (butlast new_comps)
      else normpath_comps i comps new_comps)"

definition normpath :: "string \<Rightarrow> string" where
  "normpath path =
     (if path = [] then ''.''
      else
        (let i = initial_slashes path;
             comps = normpath_comps i (str_split (CHR ''/'') path) [];
             p = replicate i (CHR ''/'') @ str_join ''/'' comps
         in if p = [] then ''.'' else p))"

text \<open>
  \<open>posixpath.abspath\<close>, with the working directory of the process, \<open>os.getcwd()\<close>,
  as the parameter \<open>cwd\<close>.
\<close>

definition abspath :: "string \<Rightarrow> string \<Rightarrow> string" where
  "abspath cwd path = normpath (if startswith path ''/'' then path else posixpath_join cwd path)"

text \<open>\<open>commonprefix\<close> of two lists, and \<open>posixpath.relpath(path, start)\<close>.\<close>

fun commonprefix :: "'a list \<Rightarrow> 'a list \<Rightarrow> 'a list" where
  "commonprefix (x # xs) (y # ys) = (if x = y then x # commonprefix xs ys else [])"
| "commonprefix xs ys = []"

definition relpath :: "string \<Rightarrow> string \<Rightarrow> string \<Rightarrow> error + string" where
  "relpath cwd path start =
     (if path = [] then Inl (ValueError ''no path specified'')
      else
        (let start_list = filter (\<lambda>x. x \<noteq> []) (str_split (CHR ''/'') (abspath cwd start));
             path_list = filter (\<lambda>x. x \<noteq> []) (str_split (CHR ''/'') (abspath cwd path));
             i = length (commonprefix start_list path_list);
             rel_list = replicate (length start_list - i) ''..'' @ drop i path_list
         in case rel_list of
              [] \<Rightarrow> Inr ''.''
            | a # p \<Rightarrow> Inr (foldl posixpath_join a p)))"

section \<open>From a locator to components\<close>

text \<open>
  The loop of \<open>href_to_remote_path_components\<close> over the verbs, and the function: a
  locator that starts with \<open>http://host:port\<close> is taken relative to it, a locator that
  starts with \<open>/\<close> loses that character, any other locator is invalid.
\<close>

fun href_verbs :: "string \<Rightarrow> verb list \<Rightarrow> string list \<Rightarrow> error + string list" where
  "href_verbs href [] components = Inr components"
| "href_verbs href (v # verbs) components =
     (case v of
        Root \<Rightarrow> Inl (ValueError (''Invalid href: '' @ href))
      | Parent \<Rightarrow>
          (if components \<noteq> [] then href_verbs href verbs (butlast components)
           else Inl (ValueError (''Invalid href: '' @ href)))
      | Current \<Rightarrow> href_verbs href verbs components
      | Child child \<Rightarrow> href_verbs href verbs (components @ [unquote child]))"

definition href_to_remote_path_components ::
  "string \<Rightarrow> string \<Rightarrow> int \<Rightarrow> string \<Rightarrow> error + string list" where
  "href_to_remote_path_components cwd h p href =
     (let base = ''http://'' @ h @ '':'' @ str_of_int p
      in if startswith href base then
           (case relpath cwd href base of
              Inl e \<Rightarrow> Inl e
            | Inr relative_path \<Rightarrow> href_verbs href (compile_to_fspathverbs relative_path) [])
         else if startswith href ''/'' then
           href_verbs href (compile_to_fspathverbs (tl href)) []
         else Inl (ValueError (''Invalid href: '' @ href)))"


section \<open>Listing and classification\<close>

text \<open>
  The transport's answer to a \<open>PROPFIND\<close> request with depth 1 is a parameter:
  \<open>propfind url srv\<close> is the status code, the \<open>{DAV:}response\<close> nodes of the answer
  and the state after the request.  A node is modelled by what the source reads from
  it: the text of its \<open>{DAV:}href\<close> (\<open>None\<close> when the node or its text is missing,
  in which case the source skips the node) and whether a \<open>{DAV:}collection\<close> element
  is found in it.
\<close>

datatype list_result =
    IsDirectory (containing_file_path_components : "string list list")
                (containing_directory_path_components : "string list list")
  | IsFile (file_path_components : "string list")
  | NotFound

text \<open>
  The generator \<open>iterate_listings_and_is_directories\<close>.  Its only consumer is
  \<open>dict(...)\<close>, which runs it to the end, so an invalid locator raises before any
  entry is used.
\<close>

fun listing_entries ::
  "string \<Rightarrow> client \<Rightarrow> (string option \<times> bool) list \<Rightarrow> error + (string list \<times> bool) list" where
  "listing_entries cwd self [] = Inr []"
| "listing_entries cwd self ((None, is_collection) # nodes) = listing_entries cwd self nodes"
| "listing_entries cwd self ((Some dav_href, is_collection) # nodes) =
     (case href_to_remote_path_components cwd (host self) (port self) dav_href of
        Inl e \<Rightarrow> Inl e
      | Inr listing \<Rightarrow>
          (case listing_entries cwd self nodes of
             Inl e \<Rightarrow> Inl e
           | Inr listings \<Rightarrow> Inr ((listing, is_collection) # listings)))"

definition iterate_listings_and_is_directories ::
  "string \<Rightarrow> client \<Rightarrow> (string \<Rightarrow> 'srv \<Rightarrow> (nat \<times> (string option \<times> bool) list) \<times> 'srv) \<Rightarrow>
     string list \<Rightarrow> 'srv \<Rightarrow> (error + (string list \<times> bool) list) \<times> 'srv" where
  "iterate_listings_and_is_directories cwd self propfind remote_path_components srv =
     (let remote_path_href =
            remote_path_components_to_href (host self) (port self) remote_path_components;
          ((status_code, nodes), srv') = propfind remote_path_href srv
      in if status_code = 207 then (listing_entries cwd self nodes, srv') else (Inr [], srv'))"

text \<open>
  A dictionary built from (key, value) pairs, in insertion order: a later pair with a
  key already present replaces the value and keeps the key's position.
\<close>

definition dict :: "('k \<times> 'v) list \<Rightarrow> ('k \<times> 'v) list" where
  "dict items = foldl (\<lambda>d (k, v). AList.update k v d) [] items"

text \<open>
  The body of \<open>list_remote_file_or_directory\<close> once the listing is there: the
  dictionary, the test of the target's own key, and the loop over the remaining items
  that appends each key to one of two lists.
\<close>

definition classify_listings :: "string list \<Rightarrow> (string list \<times> bool) list \<Rightarrow> list_result" where
  "classify_listings remote_path_components listings =
     (let listings_to_is_directories = dict listings
      in case map_of listings_to_is_directories remote_path_components of
           None \<Rightarrow> NotFound
         | Some False \<Rightarrow> IsFile remote_path_components
         | Some True \<Rightarrow>
             (let (file_path_components, directory_path_components) =
                    foldl (\<lambda>(fs, ds) (listing, is_directory).
                             if is_directory then (fs, ds @ [listing]) else (fs @ [listing], ds))
                      ([], []) (AList.delete remote_path_components listings_to_is_directories)
              in IsDirectory file_path_components directory_path_components))"

definition list_remote_file_or_directory ::
  "string \<Rightarrow> client \<Rightarrow> (string \<Rightarrow> 'srv \<Rightarrow> (nat \<times> (string option \<times> bool) list) \<times> 'srv) \<Rightarrow>
     string list \<Rightarrow> 'srv \<Rightarrow> (error + list_result) \<times> 'srv" where
  "list_remote_file_or_directory cwd self propfind remote_path_components srv =
     (case iterate_listings_and_is_directories cwd self propfind remote_path_components srv of
        (Inl e, srv') \<Rightarrow> (Inl e, srv')
      | (Inr listings, srv') \<Rightarrow> (Inr (classify_listings remote_path_components listings), srv'))"

section \<open>The get planner\<close>

datatype get_action =
    DownloadRemoteFile (remote_file_path_components : "string list")
                       (relative_local_file_path_components : "string list")
  | CreateLocalDirectory (relative_local_directory_path_components : "string list")

text \<open>
  A generator is modelled by what it emits: the list of the actions it yields, in order,
  and the exception that ends it, if one does.

  The loop of \<open>iterate_get_actions\<close> over the child files.  The arguments of an action
  are computed before it is yielded, so \<open>file_path_components[-1]\<close> on an empty
  sequence raises before that action and ends the stream.
\<close>

fun download_files :: "string list \<Rightarrow> string list list \<Rightarrow> get_action list \<times> error option" where
  "download_files new_relative_local_path_prefix [] = ([], None)"
| "download_files new_relative_local_path_prefix (file_components # rest) =
     (if file_components = [] then ([], Some IndexError)
      else
        (case download_files new_relative_local_path_prefix rest of
           (actions, raised) \<Rightarrow>
             (DownloadRemoteFile file_components
                (new_relative_local_path_prefix @ [last file_components]) # actions,
              raised)))"

text \<open>
  \<open>for x in xs: for action in gen(x): yield action\<close>, with the state of the world
  threaded through the calls; \<open>None\<close> when some call does not return.
\<close>

fun yield_from_each ::
  "('a \<Rightarrow> 'srv \<Rightarrow> (('act list \<times> error option) \<times> 'srv) option) \<Rightarrow> 'a list \<Rightarrow> 'srv \<Rightarrow>
     (('act list \<times> error option) \<times> 'srv) option" where
  "yield_from_each gen [] srv = Some (([], None), srv)"
| "yield_from_each gen (x # xs) srv =
     (case gen x srv of
        None \<Rightarrow> None
      | Some ((actions, Some e), srv1) \<Rightarrow> Some ((actions, Some e), srv1)
      | Some ((actions, None), srv1) \<Rightarrow>
          (case yield_from_each gen xs srv1 of
             None \<Rightarrow> None
           | Some ((actions', raised), srv2) \<Rightarrow> Some ((actions @ actions', raised), srv2)))"

text \<open>
  \<open>iterate_get_actions\<close>.  The recursion follows what the server answers, which need
  not be a finite tree, so the model takes fuel: the depth of recursion allowed, with
  \<open>None\<close> when it is used up.
\<close>

primrec iterate_get_actions ::
  "nat \<Rightarrow> string \<Rightarrow> client \<Rightarrow> (string \<Rightarrow> 'srv \<Rightarrow> (nat \<times> (string option \<times> bool) list) \<times> 'srv) \<Rightarrow>
     string list \<Rightarrow> string list \<Rightarrow> 'srv \<Rightarrow> ((get_action list \<times> error option) \<times> 'srv) option" where
  "iterate_get_actions 0 cwd self propfind remote_path_components relative_local_path_prefix srv = None"
| "iterate_get_actions (Suc fuel) cwd self propfind remote_path_components relative_local_path_prefix srv =
     (case list_remote_file_or_directory cwd self propfind remote_path_components srv of
        (Inl e, srv1) \<Rightarrow> Some (([], Some e), srv1)
      | (Inr (IsFile file_components), srv1) \<Rightarrow>
          (if file_components = [] then Some (([], Some IndexError), srv1)
           else Some (([DownloadRemoteFile file_components
                          (relative_local_path_prefix @ [last file_components])],
                       None), srv1))
      | (Inr (IsDirectory files directories), srv1) \<Rightarrow>
          (let new_relative_local_path_prefix =
                 (if remote_path_components = [] then relative_local_path_prefix
                  else relative_local_path_prefix @ [last remote_path_components]);
               created =
                 (if remote_path_components = [] then []
                  else [CreateLocalDirectory new_relative_local_path_prefix])
           in case download_files new_relative_local_path_prefix files of
                (downloads, Some e) \<Rightarrow> Some ((created @ downloads, Some e), srv1)
              | (downloads, None) \<Rightarrow>
                  (case yield_from_each
                          (\<lambda>directory_components.
                             iterate_get_actions fuel cwd self propfind directory_components
                               new_relative_local_path_prefix)
                          directories srv1 of
                     None \<Rightarrow> None
                   | Some ((actions, raised), srv2) \<Rightarrow>
                       Some ((created @ downloads @ actions, raised), srv2)))
      | (Inr NotFound, srv1) \<Rightarrow> Some (([], None), srv1))"

text \<open>
  A server for the scenario of the specification: the root holds the file \<open>a.txt\<close>
  and the directory \<open>b\<close>, which holds the file \<open>c.txt\<close>.
\<close>

definition scenario_get :: "string \<Rightarrow> unit \<Rightarrow> (nat \<times> (string option \<times> bool) list) \<times> unit" where
  "scenario_get url srv =
     ((207,
       if url = ''http://localhost:8080/''
       then [(Some ''/'', True), (Some ''/a.txt'', False), (Some ''/b/'', True)]
       else if url = ''http://localhost:8080/b''
       then [(Some ''http://localhost:8080/b/'', True), (Some ''http://localhost:8080/b/c.txt'', False)]
       else if url = ''http://localhost:8080/a.txt''
       then [(Some ''/a.txt'', False)]
       else []), srv)"


section \<open>The put planner\<close>

datatype put_action =
    UploadLocalFile (local_file_path : string) (relative_remote_file_path_components : "string list")
  | CreateRemoteDirectory (relative_remote_directory_path_components : "string list")

text \<open>
  The local file system as the planner sees it through \<open>os.path\<close> and \<open>os.walk\<close>:
  the entries of the root directory, each a name with a node, in the order in which
  \<open>scandir\<close> lists them (the names of one directory are distinct).  \<open>RegularFile\<close> is
  what \<open>isfile\<close> accepts (a regular file, also behind a symbolic link), \<open>Directory\<close>
  what \<open>isdir\<close> accepts, with a flag that says whether the entry is a symbolic link
  to the directory, and \<open>Special\<close> anything else (a device, a socket, a dangling
  link).
\<close>

datatype fsnode = RegularFile | Special | Directory bool "(string \<times> fsnode) list"

fun is_directory_node :: "fsnode \<Rightarrow> bool" where
  "is_directory_node (Directory link entries) = True"
| "is_directory_node node = False"

text \<open>What \<open>stat\<close> finds at an absolute path, following links.\<close>

fun fs_lookup :: "(string \<times> fsnode) list \<Rightarrow> string list \<Rightarrow> fsnode option" where
  "fs_lookup entries [] = Some (Directory False entries)"
| "fs_lookup entries (name # names) =
     (case map_of entries name of
        None \<Rightarrow> None
      | Some (Directory link sub) \<Rightarrow> fs_lookup sub names
      | Some node \<Rightarrow> (if names = [] then Some node else None))"

definition stat :: "(string \<times> fsnode) list \<Rightarrow> string \<Rightarrow> fsnode option" where
  "stat fs path = fs_lookup fs (filter (\<lambda>x. x \<noteq> []) (str_split (CHR ''/'') path))"

definition isfile :: "(string \<times> fsnode) list \<Rightarrow> string \<Rightarrow> bool" where
  "isfile fs path = (stat fs path = Some RegularFile)"

definition isdir :: "(string \<times> fsnode) list \<Rightarrow> string \<Rightarrow> bool" where
  "isdir fs path = (case stat fs path of Some node \<Rightarrow> is_directory_node node | None \<Rightarrow> False)"

text \<open>\<open>posixpath.basename\<close>: what follows the last separator.\<close>

definition basename :: "string \<Rightarrow> string" where
  "basename p = last (str_split (CHR ''/'') p)"

text \<open>
  \<open>os.walk(top)\<close>, top-down and without following links: one triple of directory
  path, names of subdirectories and names of other entries for the directory, then the
  walks of its subdirectories that are not symbolic links, in order.
\<close>

fun os_walk :: "string \<Rightarrow> (string \<times> fsnode) list \<Rightarrow> (string \<times> string list \<times> string list) list"
  and walk_subdirectories ::
    "string \<Rightarrow> (string \<times> fsnode) list \<Rightarrow> (string \<times> string list \<times> string list) list" where
  "os_walk topdir entries =
     (topdir,
      map fst (filter (\<lambda>entry. is_directory_node (snd entry)) entries),
      map fst (filter (\<lambda>entry. \<not> is_directory_node (snd entry)) entries)) #
     walk_subdirectories topdir entries"
| "walk_subdirectories topdir [] = []"
| "walk_subdirectories topdir ((name, node) # entries) =
     (case node of
        Directory link sub \<Rightarrow> if link then [] else os_walk (posixpath_join topdir name) sub
      | _ \<Rightarrow> []) @
     walk_subdirectories topdir entries"

text \<open>
  The loop of \<open>iterate_put_actions\<close> over the triples of \<open>os.walk\<close>.  An exception
  raised for one level ends the stream after the actions of the levels before it.
\<close>

fun walk_actions ::
  "string \<Rightarrow> string \<Rightarrow> string list \<Rightarrow> (string \<times> string list \<times> string list) list \<Rightarrow>
     put_action list \<times> error option" where
  "walk_actions cwd absolute_local_path prefix_with_basename [] = ([], None)"
| "walk_actions cwd absolute_local_path prefix_with_basename ((dirpath, dirnames, filenames) # levels) =
     (case relpath cwd dirpath absolute_local_path of
        Inl e \<Rightarrow> ([], Some e)
      | Inr relative_local_path \<Rightarrow>
          (case relative_local_path_to_relative_local_path_components relative_local_path of
             Inl e \<Rightarrow> ([], Some e)
           | Inr relative_local_path_components \<Rightarrow>
               (let new_relative_remote_path_prefix =
                      prefix_with_basename @ relative_local_path_components;
                    here =
                      map (\<lambda>dirname. CreateRemoteDirectory (new_relative_remote_path_prefix @ [dirname]))
                        dirnames @
                      map (\<lambda>filename. UploadLocalFile (posixpath_join dirpath filename)
                             (new_relative_remote_path_prefix @ [filename]))
                        filenames
                in case walk_actions cwd absolute_local_path prefix_with_basename levels of
                     (actions, raised) \<Rightarrow> (here @ actions, raised))))"

text \<open>The entries that \<open>scandir\<close> lists for a path.\<close>

definition listdir :: "(string \<times> fsnode) list \<Rightarrow> string \<Rightarrow> (string \<times> fsnode) list" where
  "listdir fs path = (case stat fs path of Some (Directory link entries) \<Rightarrow> entries | _ \<Rightarrow> [])"

text \<open>
  \<open>iterate_put_actions\<close>, with the working directory and the file system as
  parameters.
\<close>

definition iterate_put_actions ::
  "string \<Rightarrow> (string \<times> fsnode) list \<Rightarrow> string \<Rightarrow> string list \<Rightarrow> put_action list \<times> error option" where
  "iterate_put_actions cwd fs local_path relative_remote_path_prefix =
     (let absolute_local_path = abspath cwd local_path;
          base = basename absolute_local_path
      in if base \<noteq> [] \<and> isfile fs absolute_local_path then
           ([UploadLocalFile absolute_local_path (relative_remote_path_prefix @ [base])], None)
         else if base \<noteq> [] \<and> isdir fs absolute_local_path then
           (let relative_remote_path_prefix_with_basename = relative_remote_path_prefix @ [base]
            in case walk_actions cwd absolute_local_path relative_remote_path_prefix_with_basename
                      (os_walk absolute_local_path (listdir fs absolute_local_path)) of
                 (actions, raised) \<Rightarrow>
                   (CreateRemoteDirectory relative_remote_path_prefix_with_basename # actions, raised))
         else ([], Some (ValueError (''Invalid local path: '' @ local_path))))"

text \<open>The remote path that an action carries.\<close>

fun put_action_path :: "put_action \<Rightarrow> string list" where
  "put_action_path (UploadLocalFile path components) = components"
| "put_action_path (CreateRemoteDirectory components) = components"

text \<open>
  A file system for the scenario of the specification: the directory \<open>/home/a\<close> with
  the file \<open>f.txt\<close> and the empty directory \<open>sub\<close>; beside it a device.
\<close>

definition scenario_fs :: "(string \<times> fsnode) list" where
  "scenario_fs =
     [(''home'', Directory False
        [(''a'', Directory False [(''f.txt'', RegularFile), (''sub'', Directory False [])]),
         (''dev'', Special)])]"

subsection \<open>The plan of the specification, and its order\<close>

text \<open>
  What a POSIX file system guarantees of every directory entry: its name is a path component
  (not empty, without a slash, neither \<open>.\<close> nor \<open>..\<close>).
\<close>

fun wf_entries :: "(string \<times> fsnode) list \<Rightarrow> bool" where
  "wf_entries [] = True"
| "wf_entries ((name, node) # entries) =
     (valid_component name \<and>
      (case node of Directory link sub \<Rightarrow> wf_entries sub | _ \<Rightarrow> True) \<and>
      wf_entries entries)"

text \<open>
  The plan in the words of the specification: at each level a \<open>CreateRemoteDirectory\<close>
  for every subdirectory, then an \<open>UploadLocalFile\<close> for every file, and only then the
  levels below the subdirectories, in their order.  It is compared with the stream that
  \<open>iterate_put_actions\<close> computes from \<open>os_walk\<close>, \<open>relpath\<close> and the parser.
\<close>

fun spec_plan_level :: "string \<Rightarrow> string list \<Rightarrow> (string \<times> fsnode) list \<Rightarrow> put_action list"
  and spec_plan_below :: "string \<Rightarrow> string list \<Rightarrow> (string \<times> fsnode) list \<Rightarrow> put_action list" where
  "spec_plan_level dirpath remote entries =
     map (\<lambda>dirname. CreateRemoteDirectory (remote @ [dirname]))
       (map fst (filter (\<lambda>entry. is_directory_node (snd entry)) entries)) @
     map (\<lambda>filename. UploadLocalFile (posixpath_join dirpath filename) (remote @ [filename]))
       (map fst (filter (\<lambda>entry. \<not> is_directory_node (snd entry)) entries)) @
     spec_plan_below dirpath remote entries"
| "spec_plan_below dirpath remote [] = []"
| "spec_plan_below dirpath remote ((name, node) # entries) =
     (case node of
        Directory link sub \<Rightarrow>
          if link then [] else spec_plan_level (posixpath_join dirpath name) (remote @ [name]) sub
      | _ \<Rightarrow> []) @
     spec_plan_below dirpath remote entries"

text \<open>
  Pre-order: when an action is emitted, every directory strictly between the prefix (of
  length \<open>n\<close>) and the action's own path has been created before.
\<close>

definition created_directories :: "put_action list \<Rightarrow> string list list" where
  "created_directories actions =
     concat (map (\<lambda>a. case a of CreateRemoteDirectory d \<Rightarrow> [d] | _ \<Rightarrow> []) actions)"

fun parents_first :: "nat \<Rightarrow> string list set \<Rightarrow> put_action list \<Rightarrow> bool" where
  "parents_first n created [] = True"
| "parents_first n created (a # actions) =
     ((\<forall>k \<in> {n <..< length (put_action_path a)}. take k (put_action_path a) \<in> created) \<and>
      parents_first n (created \<union> set (created_directories [a])) actions)"

text \<open>The path of the directory reached from \<open>top_path\<close> through \<open>names\<close>.\<close>

definition below :: "string \<Rightarrow> string list \<Rightarrow> string" where
  "below top_path names = top_path @ concat (map (\<lambda>n. CHR ''/'' # n) names)"

section \<open>Parsing against the normal form\<close>

lemma remote_path_verbs_segments:
  "remote_path_verbs path (map verb_of_segment segs) acc =
     (case normalize_segments segs acc of
        None \<Rightarrow> Inl (ValueError (''Invalid remote path: '' @ path))
      | Some cs \<Rightarrow> Inr cs)"
  by (induction segs arbitrary: acc) (simp_all add: verb_of_segment_def)

lemma relative_local_path_verbs_segments:
  "relative_local_path_verbs path (map verb_of_segment segs) acc =
     (case normalize_segments segs acc of
        None \<Rightarrow> Inl (ValueError (''Invalid relative local path: '' @ path))
      | Some cs \<Rightarrow> Inr cs)"
  by (induction segs arbitrary: acc) (simp_all add: verb_of_segment_def)

lemma remote_parser_normal_form:
  "remote_path_to_remote_path_components path =
     (case normal_form path of
        None \<Rightarrow> Inl (ValueError (''Invalid remote path: '' @ path))
      | Some cs \<Rightarrow> Inr cs)"
  by (simp add: remote_path_to_remote_path_components_def compile_to_fspathverbs_def
      normal_form_def remote_path_verbs_segments)

lemma local_parser_normal_form:
  "relative_local_path_to_relative_local_path_components path =
     (if has_root path then Inl (ValueError (''Invalid relative local path: '' @ path))
      else (case normal_form path of
        None \<Rightarrow> Inl (ValueError (''Invalid relative local path: '' @ path))
      | Some cs \<Rightarrow> Inr cs))"
  by (simp add: relative_local_path_to_relative_local_path_components_def
      compile_to_fspathverbs_def normal_form_def relative_local_path_verbs_segments)

section \<open>Quoting round trip\<close>

lemma hex_value_hex_digit_all: "\<forall>d \<in> set [0 ..< 16]. hex_value (hex_digit d) = Some d"
  by code_simp

lemma hex_value_hex_digit: "d < 16 \<Longrightarrow> hex_value (hex_digit d) = Some d"
  using hex_value_hex_digit_all by simp

lemma hex_digit_not_percent: "d < 16 \<Longrightarrow> hex_digit d \<in> set ''0123456789ABCDEF''"
  unfolding hex_digit_def by (rule nth_mem) simp

lemma unquote_quote_byte: "unquote (quote_byte c @ s) = c # unquote s"
proof (cases "always_safe c \<or> c = CHR ''/''")
  case True
  then have "c \<noteq> CHR ''%''" by (auto simp: always_safe_def)
  with True show ?thesis
    by (cases s rule: unquote.cases) (simp_all add: quote_byte_def)
next
  case False
  have lt: "(of_char c :: nat) div 16 < 16" "(of_char c :: nat) mod 16 < 16"
    using of_char_mod_256 [of c, where ?'a = nat] 
    by (simp_all add: less_mult_imp_div_less) 
  have eq: "16 * ((of_char c :: nat) div 16) + of_char c mod 16 = of_char c"
    by simp
  from False show ?thesis
    by (simp add: quote_byte_def hex_value_hex_digit lt eq)
qed

lemma unquote_quote_append: "unquote (quote s @ t) = s @ unquote t"
  by (induction s) (simp_all add: quote_def unquote_quote_byte)

lemma unquote_quote: "unquote (quote s) = s"
  using unquote_quote_append [of s "[]"] by simp


section \<open>Directory creation returns\<close>

lemma create_directories_returns_aux:
  "length cs = n \<Longrightarrow> \<exists>r. create_directories_from_remote_path_components self mkcol cs srv = Some r"
proof (induction n arbitrary: cs srv)
  case 0
  then show ?case by (subst create_directories_from_remote_path_components.simps) auto
next
  case (Suc n)
  then have ne: "cs \<noteq> []" and len: "length (butlast cs) = n" by auto
  obtain ok1 srv1 where first: "create_directory_from_remote_path_components self mkcol cs srv = (ok1, srv1)"
    by (cases "create_directory_from_remote_path_components self mkcol cs srv")
  show ?case
  proof (cases ok1)
    case True
    with ne first show ?thesis
      by (subst create_directories_from_remote_path_components.simps) auto
  next
    case False
    from Suc.IH [OF len] obtain r where
      parent: "create_directories_from_remote_path_components self mkcol (butlast cs) srv1 = Some r"
      by blast
    from ne first False parent show ?thesis
      by (subst create_directories_from_remote_path_components.simps) (auto split: prod.splits)
  qed
qed

section \<open>The dictionary of a listing\<close>

lemma map_of_dict_aux:
  "map_of (foldl (\<lambda>d (k, v). AList.update k v d) d0 items) = map_of (rev items @ d0)"
  by (induction items arbitrary: d0) (auto simp: update_conv')

lemma map_of_dict: "map_of (dict items) = map_of (rev items)"
  by (simp add: dict_def map_of_dict_aux)

lemma distinct_dict_aux:
  "distinct (map fst d0) \<Longrightarrow> distinct (map fst (foldl (\<lambda>d (k, v). AList.update k v d) d0 items))"
  by (induction items arbitrary: d0) (auto simp: distinct_update)

lemma distinct_dict: "distinct (map fst (dict items))"
  by (simp add: dict_def distinct_dict_aux)

lemma partition_loop:
  "foldl (\<lambda>(fs, ds) (listing, is_directory).
            if is_directory then (fs, ds @ [listing]) else (fs @ [listing], ds)) (fs0, ds0) d =
   (fs0 @ map fst (filter (\<lambda>e. \<not> snd e) d), ds0 @ map fst (filter snd d))"
  by (induction d arbitrary: fs0 ds0) (auto split: prod.splits)


lemma set_files_of_dict:
  assumes "distinct (map fst d)"
  shows "set (map fst (filter (\<lambda>e. \<not> snd e) (AList.delete t d))) = {p. p \<noteq> t \<and> map_of d p = Some False}"
  using assms by (auto simp: AList.delete_eq image_iff)

lemma set_directories_of_dict:
  assumes "distinct (map fst d)"
  shows "set (map fst (filter snd (AList.delete t d))) = {p. p \<noteq> t \<and> map_of d p = Some True}"
  using assms by (auto simp: AList.delete_eq image_iff)

lemma distinct_keys_filter: "distinct (map fst d) \<Longrightarrow> distinct (map fst (filter P (AList.delete t d)))"
  by (simp add: distinct_map_filter distinct_delete)

lemma dom_map_of_dict: "dom (map_of (dict items)) = fst ` set items"
  by (simp add: map_of_dict dom_map_of_conv_image_fst)

lemma classify_listings_cases:
  "(case map_of (dict listings) target of
      None \<Rightarrow> classify_listings target listings = NotFound
    | Some False \<Rightarrow> classify_listings target listings = IsFile target
    | Some True \<Rightarrow>
        (\<exists>fs ds. classify_listings target listings = IsDirectory fs ds \<and>
           set fs = {p. p \<noteq> target \<and> map_of (dict listings) p = Some False} \<and>
           set ds = {p. p \<noteq> target \<and> map_of (dict listings) p = Some True} \<and>
           set fs \<inter> set ds = {} \<and>
           set fs \<union> set ds = fst ` set listings - {target} \<and>
           distinct fs \<and> distinct ds))"
proof (cases "map_of (dict listings) target")
  case None
  then show ?thesis by (simp add: classify_listings_def)
next
  case (Some is_directory)
  show ?thesis
  proof (cases is_directory)
    case False
    with Some show ?thesis by (simp add: classify_listings_def)
  next
    case True
    let ?d = "dict listings"
    let ?fs = "map fst (filter (\<lambda>e. \<not> snd e) (AList.delete target ?d))"
    let ?ds = "map fst (filter snd (AList.delete target ?d))"
    have dist: "distinct (map fst ?d)" by (rule distinct_dict)
    have res: "classify_listings target listings = IsDirectory ?fs ?ds"
      using Some True by (simp add: classify_listings_def partition_loop Let_def)
    have fs: "set ?fs = {p. p \<noteq> target \<and> map_of ?d p = Some False}"
      by (rule set_files_of_dict [OF dist])
    have ds: "set ?ds = {p. p \<noteq> target \<and> map_of ?d p = Some True}"
      by (rule set_directories_of_dict [OF dist])
    have disj: "set ?fs \<inter> set ?ds = {}"
      unfolding fs ds by auto
    have "set ?fs \<union> set ?ds = dom (map_of ?d) - {target}"
      unfolding fs ds by (auto simp: dom_def)
    then have un: "set ?fs \<union> set ?ds = fst ` set listings - {target}"
      by (simp only: dom_map_of_dict)
    have d1: "distinct ?fs" and d2: "distinct ?ds"
      using dist by (rule distinct_keys_filter)+
    have key: "map_of ?d target = Some True"
      using Some True by simp
    have "classify_listings target listings = IsDirectory ?fs ?ds \<and>
        set ?fs = {p. p \<noteq> target \<and> map_of ?d p = Some False} \<and>
        set ?ds = {p. p \<noteq> target \<and> map_of ?d p = Some True} \<and>
        set ?fs \<inter> set ?ds = {} \<and>
        set ?fs \<union> set ?ds = fst ` set listings - {target} \<and>
        distinct ?fs \<and> distinct ?ds"
      by (intro conjI) (rule res fs ds disj un d1 d2)+
    then show ?thesis
      unfolding key option.case bool.case by (intro exI)
  qed
qed



lemmas href_eval = href_to_remote_path_components_def startswith_def relpath_def abspath_def
  normpath_def initial_slashes_def posixpath_join_def compile_to_fspathverbs_def has_root_def
  path_segments_def verb_of_segment_def str_of_int_def str_of_nat.simps Let_def

section \<open>Splitting, normalising and the locator round trip\<close>

lemma str_split_not_Nil: "str_split sep s \<noteq> []"
  by (induction s) (auto split: list.splits)

lemma str_split_append_sep:
  "str_split sep (a @ sep # b) = str_split sep a @ str_split sep b"
  by (induction a) (auto split: list.splits simp: str_split_not_Nil)

lemma str_split_no_sep: "sep \<notin> set s \<Longrightarrow> str_split sep s = [s]"
  by (induction s) auto

lemma str_split_sep_free: "x \<in> set (str_split sep s) \<Longrightarrow> sep \<notin> set x"
  by (induction s arbitrary: x) (auto split: if_splits list.splits)

lemma str_split_append_no_sep:
  "sep \<notin> set b \<Longrightarrow>
     str_split sep (a @ b) = butlast (str_split sep a) @ [last (str_split sep a) @ b]"
  by (induction a) (auto split: list.splits simp: str_split_not_Nil str_split_no_sep)

lemma last_str_split_append:
  "sep \<notin> set b \<Longrightarrow> last (str_split sep (a @ b)) = last (str_split sep a) @ b"
  by (simp add: str_split_append_no_sep)

lemma last_not_sep: "s \<noteq> [] \<Longrightarrow> c \<notin> set s \<Longrightarrow> last s \<noteq> c"
  by (induction s) auto

lemma str_join_Cons:
  "str_join [sep] (x # xs) = x @ concat (map (\<lambda>y. sep # y) xs)"
  by (induction xs arbitrary: x) auto

lemma str_split_join_Cons:
  "sep \<notin> set x \<Longrightarrow> \<forall>y \<in> set xs. sep \<notin> set y \<Longrightarrow>
     str_split sep (x @ concat (map (\<lambda>y. sep # y) xs)) = x # xs"
proof (induction xs arbitrary: x)
  case Nil
  then show ?case by (simp add: str_split_no_sep)
next
  case (Cons y ys)
  then have "str_split sep (y @ concat (map (\<lambda>y. sep # y) ys)) = y # ys"
    by simp
  with Cons.prems show ?case
    by (simp add: str_split_append_sep str_split_no_sep)
qed

lemma str_split_join:
  "xs \<noteq> [] \<Longrightarrow> \<forall>x \<in> set xs. sep \<notin> set x \<Longrightarrow> str_split sep (str_join [sep] xs) = xs"
  by (cases xs) (simp_all add: str_join_Cons str_split_join_Cons del: str_join.simps)

lemma normpath_comps_append:
  "normpath_comps i (xs @ ys) new = normpath_comps i ys (normpath_comps i xs new)"
  by (induction xs arbitrary: new) auto

lemma normpath_comps_push:
  "\<forall>q \<in> set qs. q \<noteq> [] \<and> q \<noteq> ''.'' \<and> q \<noteq> ''..'' \<Longrightarrow> normpath_comps i qs new = new @ qs"
  by (induction qs arbitrary: new) auto

lemma normpath_comps_elements:
  "x \<in> set (normpath_comps i comps new) \<Longrightarrow> x \<in> set new \<or> (x \<in> set comps \<and> x \<noteq> [])"
proof (induction comps arbitrary: new)
  case Nil
  then show ?case by simp
next
  case (Cons seg comps)
  consider (skip) "seg = [] \<or> seg = ''.''"
    | (push) "\<not> (seg = [] \<or> seg = ''.'')"
        "seg \<noteq> ''..'' \<or> (i = 0 \<and> new = []) \<or> (new \<noteq> [] \<and> last new = ''..'')"
    | (pop) "\<not> (seg = [] \<or> seg = ''.'')"
        "\<not> (seg \<noteq> ''..'' \<or> (i = 0 \<and> new = []) \<or> (new \<noteq> [] \<and> last new = ''..''))"
        "new \<noteq> []"
    | (stay) "\<not> (seg = [] \<or> seg = ''.'')"
        "\<not> (seg \<noteq> ''..'' \<or> (i = 0 \<and> new = []) \<or> (new \<noteq> [] \<and> last new = ''..''))"
        "new = []"
    by blast
  then show ?case
  proof cases
    case skip
    with Cons.prems have "x \<in> set (normpath_comps i comps new)" by simp
    from Cons.IH [OF this] show ?thesis by auto
  next
    case push
    with Cons.prems have "x \<in> set (normpath_comps i comps (new @ [seg]))" by simp
    from Cons.IH [OF this] push(1) show ?thesis by auto
  next
    case pop
    with Cons.prems have "x \<in> set (normpath_comps i comps (butlast new))" by simp
    from Cons.IH [OF this] show ?thesis by (auto dest: in_set_butlastD)
  next
    case stay
    with Cons.prems have "x \<in> set (normpath_comps i comps new)" by simp
    from Cons.IH [OF this] show ?thesis by auto
  qed
qed


lemma split_slashes_join:
  assumes "\<forall>x \<in> set T. x \<noteq> [] \<and> CHR ''/'' \<notin> set x"
  shows "filter (\<lambda>x. x \<noteq> []) (str_split (CHR ''/'') (replicate i (CHR ''/'') @ str_join ''/'' T)) = T"
proof (induction i)
  case 0
  show ?case
  proof (cases "T = []")
    case True
    then show ?thesis by simp
  next
    case False
    with assms have "str_split (CHR ''/'') (str_join ''/'' T) = T"
      by (simp add: str_split_join)
    with assms show ?thesis by (simp add: filter_id_conv)
  qed
next
  case (Suc i)
  then show ?case by simp
qed

lemma str_join_eq_Nil: "\<forall>x \<in> set T. x \<noteq> [] \<Longrightarrow> str_join sep T = [] \<longleftrightarrow> T = []"
  by (induction sep T rule: str_join.induct) auto

lemma normpath_list:
  assumes "X \<noteq> []"
  shows "filter (\<lambda>x. x \<noteq> []) (str_split (CHR ''/'') (normpath X)) =
     (if normpath_comps (initial_slashes X) (str_split (CHR ''/'') X) [] = [] \<and> initial_slashes X = 0
      then [''.'']
      else normpath_comps (initial_slashes X) (str_split (CHR ''/'') X) [])"
proof -
  define i where "i = initial_slashes X"
  define S where "S = normpath_comps i (str_split (CHR ''/'') X) []"
  define out where "out = replicate i (CHR ''/'') @ str_join ''/'' S"
  have el: "\<forall>x \<in> set S. x \<noteq> [] \<and> CHR ''/'' \<notin> set x"
    using normpath_comps_elements [of _ i "str_split (CHR ''/'') X" "[]"]
      str_split_sep_free [of _ "CHR ''/''" X]
    unfolding S_def by auto
  then have l: "filter (\<lambda>x. x \<noteq> []) (str_split (CHR ''/'') out) = S"
    unfolding out_def by (rule split_slashes_join)
  have e: "out = [] \<longleftrightarrow> S = [] \<and> i = 0"
    using str_join_eq_Nil [of S "''/''"] el unfolding out_def by auto
  have np: "normpath X = (if out = [] then ''.'' else out)"
    unfolding normpath_def Let_def out_def S_def i_def
    by (simp only: assms if_False)
  have "filter (\<lambda>x. x \<noteq> []) (str_split (CHR ''/'') (normpath X)) =
      (if S = [] \<and> i = 0 then [''.''] else S)"
  proof (cases "out = []")
    case True
    with e np show ?thesis by simp
  next
    case False
    with e np l show ?thesis by simp
  qed
  then show ?thesis
    unfolding S_def i_def .
qed

lemma initial_slashes_append:
  assumes "X \<noteq> []" "last X \<noteq> CHR ''/''"
  shows "initial_slashes (X @ r) = initial_slashes X"
proof (cases X)
  case Nil
  with assms show ?thesis by simp
next
  case (Cons a X1)
  show ?thesis
  proof (cases X1)
    case Nil
    with Cons assms show ?thesis by (simp add: initial_slashes_def startswith_def)
  next
    case (Cons b X2)
    show ?thesis
    proof (cases X2)
      case Nil
      with Cons \<open>X = a # X1\<close> assms show ?thesis
        by (simp add: initial_slashes_def startswith_def)
    next
      case (Cons c X3)
      with \<open>X1 = b # X2\<close> \<open>X = a # X1\<close> show ?thesis
        by (simp add: initial_slashes_def startswith_def)
    qed
  qed
qed

lemma normpath_list_extend:
  assumes X: "X \<noteq> []" "last X \<noteq> CHR ''/''"
    and D: "last (str_split (CHR ''/'') X) \<noteq> ''.''" "last (str_split (CHR ''/'') X) \<noteq> ''..''"
    and qs: "\<forall>q \<in> set qs. q \<noteq> [] \<and> CHR ''/'' \<notin> set q \<and> q \<noteq> ''.'' \<and> q \<noteq> ''..''"
  shows "filter (\<lambda>x. x \<noteq> []) (str_split (CHR ''/'') (normpath (X @ CHR ''/'' # str_join ''/'' qs))) =
     filter (\<lambda>x. x \<noteq> []) (str_split (CHR ''/'') (normpath X)) @ qs"
proof -
  let ?i = "initial_slashes X"
  let ?X' = "X @ CHR ''/'' # str_join ''/'' qs"
  let ?S = "normpath_comps ?i (str_split (CHR ''/'') X) []"
  have i: "initial_slashes ?X' = ?i"
    using X by (rule initial_slashes_append)
  have lastX: "last (str_split (CHR ''/'') X) \<noteq> []"
    using X str_split_append_no_sep [of "CHR ''/''" "[last X]" "butlast X"]
    by (simp add: str_split_not_Nil)
  have "str_split (CHR ''/'') X = butlast (str_split (CHR ''/'') X) @ [last (str_split (CHR ''/'') X)]"
    by (simp add: str_split_not_Nil)
  then have "?S = normpath_comps ?i [last (str_split (CHR ''/'') X)]
      (normpath_comps ?i (butlast (str_split (CHR ''/'') X)) [])"
    by (metis normpath_comps_append)
  with D lastX have S_ne: "?S \<noteq> []"
    by simp
  have tail: "normpath_comps ?i (str_split (CHR ''/'') (str_join ''/'' qs)) ?S = ?S @ qs"
  proof (cases "qs = []")
    case True
    then show ?thesis by simp
  next
    case False
    with qs have "str_split (CHR ''/'') (str_join ''/'' qs) = qs"
      by (simp add: str_split_join)
    with qs show ?thesis by (simp add: normpath_comps_push)
  qed
  have S': "normpath_comps (initial_slashes ?X') (str_split (CHR ''/'') ?X') [] = ?S @ qs"
    by (simp only: i str_split_append_sep normpath_comps_append tail)
  have "filter (\<lambda>x. x \<noteq> []) (str_split (CHR ''/'') (normpath ?X')) = ?S @ qs"
    using normpath_list [of ?X'] S' S_ne by simp
  moreover have "filter (\<lambda>x. x \<noteq> []) (str_split (CHR ''/'') (normpath X)) = ?S"
    using normpath_list [OF X(1)] S_ne by simp
  ultimately show ?thesis by simp
qed


lemma foldl_posixpath_join:
  "a \<noteq> [] \<Longrightarrow> last a \<noteq> CHR ''/'' \<Longrightarrow> \<forall>b \<in> set p. b \<noteq> [] \<and> CHR ''/'' \<notin> set b \<Longrightarrow>
     foldl posixpath_join a p = str_join ''/'' (a # p)"
proof (induction p arbitrary: a)
  case Nil
  then show ?case by simp
next
  case (Cons b p)
  from Cons.prems have b: "b \<noteq> []" "CHR ''/'' \<notin> set b" by simp_all
  then have hd: "\<not> startswith b ''/''"
    by (cases b) (auto simp: startswith_def)
  with Cons.prems have step: "posixpath_join a b = a @ ''/'' @ b"
    by (simp add: posixpath_join_def)
  have "last (a @ ''/'' @ b) = last b"
    using b by simp
  moreover have "last b \<in> set b"
    using b by simp
  ultimately have "last (a @ ''/'' @ b) \<noteq> CHR ''/''"
    using b(2) by auto
  with Cons.IH [of "a @ ''/'' @ b"] Cons.prems step
  have "foldl posixpath_join a (b # p) = str_join ''/'' ((a @ ''/'' @ b) # p)"
    by simp
  then show ?case
    by (simp add: str_join_Cons del: str_join.simps)
qed

lemma commonprefix_append: "commonprefix S (S @ qs) = S"
  by (induction S) simp_all

lemma str_of_nat_digits: "str_of_nat n \<noteq> [] \<and> set (str_of_nat n) \<subseteq> set ''0123456789''"
proof (induction n rule: str_of_nat.induct)
  case (1 n)
  have d: "\<And>k. k < 10 \<Longrightarrow> ''0123456789'' ! k \<in> set ''0123456789''"
    by (rule nth_mem) simp
  show ?case
  proof (cases "n < 10")
    case True
    then have "str_of_nat n = [''0123456789'' ! n]"
      by (simp add: str_of_nat.simps [of n])
    with d [OF True] show ?thesis by simp
  next
    case False
    then have "str_of_nat n = str_of_nat (n div 10) @ [''0123456789'' ! (n mod 10)]"
      by (simp add: str_of_nat.simps [of n])
    moreover have "''0123456789'' ! (n mod 10) \<in> set ''0123456789''"
      by (rule d) simp
    ultimately show ?thesis using "1.IH" [OF False] by simp
  qed
qed

lemma str_of_int_chars:
  "str_of_int p \<noteq> [] \<and> CHR ''/'' \<notin> set (str_of_int p) \<and> last (str_of_int p) \<noteq> CHR ''/''"
proof -
  have nat: "\<And>n. CHR ''/'' \<notin> set (str_of_nat n)"
  proof
    fix n assume "CHR ''/'' \<in> set (str_of_nat n)"
    with str_of_nat_digits [of n] have "CHR ''/'' \<in> set ''0123456789''" by blast
    then show False by simp
  qed
  have ne: "str_of_int p \<noteq> []"
    using str_of_nat_digits by (simp add: str_of_int_def)
  have sl: "CHR ''/'' \<notin> set (str_of_int p)"
    using nat by (simp add: str_of_int_def)
  from ne have "last (str_of_int p) \<in> set (str_of_int p)" by simp
  with sl have "last (str_of_int p) \<noteq> CHR ''/''" by auto
  with ne sl show ?thesis by simp
qed


lemma relpath_below:
  assumes P: "P \<noteq> []" "\<not> startswith P ''/''" "last P \<noteq> CHR ''/''"
    and D: "\<And>pre. last (str_split (CHR ''/'') (pre @ P)) \<noteq> ''.'' \<and>
             last (str_split (CHR ''/'') (pre @ P)) \<noteq> ''..''"
    and qs: "\<forall>q \<in> set qs. q \<noteq> [] \<and> CHR ''/'' \<notin> set q \<and> q \<noteq> ''.'' \<and> q \<noteq> ''..''"
  shows "relpath cwd (P @ CHR ''/'' # str_join ''/'' qs) P =
     Inr (if qs = [] then ''.'' else str_join ''/'' qs)"
proof -
  define pre where "pre = (if cwd = [] \<or> last cwd = CHR ''/'' then cwd else cwd @ ''/'')"
  define X where "X = pre @ P"
  let ?r = "CHR ''/'' # str_join ''/'' qs"
  from P have nr: "\<not> startswith (P @ ?r) ''/''"
    by (cases P) (simp_all add: startswith_def)
  have jP: "posixpath_join cwd P = X"
    using P by (simp add: posixpath_join_def X_def pre_def)
  have jH: "posixpath_join cwd (P @ ?r) = X @ ?r"
    using nr by (simp add: posixpath_join_def X_def pre_def)
  have X: "X \<noteq> []" "last X \<noteq> CHR ''/''"
    using P by (simp_all add: X_def)
  have DX: "last (str_split (CHR ''/'') X) \<noteq> ''.''" "last (str_split (CHR ''/'') X) \<noteq> ''..''"
    using D [of pre] by (simp_all add: X_def)
  define S where "S = filter (\<lambda>x. x \<noteq> []) (str_split (CHR ''/'') (normpath X))"
  have start: "filter (\<lambda>x. x \<noteq> []) (str_split (CHR ''/'') (abspath cwd P)) = S"
    using P by (simp add: abspath_def jP S_def)
  have path: "filter (\<lambda>x. x \<noteq> []) (str_split (CHR ''/'') (abspath cwd (P @ ?r))) = S @ qs"
    using nr normpath_list_extend [OF X DX qs] by (simp add: abspath_def jH S_def)
  have rel: "relpath cwd (P @ ?r) P =
      (case qs of [] \<Rightarrow> Inr ''.'' | a # p \<Rightarrow> Inr (foldl posixpath_join a p))"
    unfolding relpath_def Let_def start path
    by (simp add: commonprefix_append)
  show ?thesis
  proof (cases qs)
    case Nil
    with rel show ?thesis by simp
  next
    case (Cons a p)
    with qs have a: "a \<noteq> []" "CHR ''/'' \<notin> set a"
      and p: "\<forall>b \<in> set p. b \<noteq> [] \<and> CHR ''/'' \<notin> set b"
      by simp_all
    from a have "last a \<noteq> CHR ''/''" by (rule last_not_sep)
    with a p have "foldl posixpath_join a p = str_join ''/'' (a # p)"
      by (intro foldl_posixpath_join)
    with rel Cons show ?thesis by simp
  qed
qed

lemma compile_children:
  assumes "qs \<noteq> []"
    and "\<forall>q \<in> set qs. q \<noteq> [] \<and> CHR ''/'' \<notin> set q \<and> q \<noteq> ''.'' \<and> q \<noteq> ''..''"
  shows "compile_to_fspathverbs (str_join ''/'' qs) = map Child qs"
proof -
  from assms obtain q qs' where q: "qs = q # qs'" "q \<noteq> []" "CHR ''/'' \<notin> set q"
    by (cases qs) auto
  then have "\<not> has_root (str_join ''/'' qs)"
    by (cases q) (auto simp: has_root_def str_join_Cons simp del: str_join.simps)
  moreover from assms have "path_segments (str_join ''/'' qs) = qs"
    by (simp add: path_segments_def str_split_join filter_id_conv)
  moreover from assms have "map verb_of_segment qs = map Child qs"
    by (simp add: verb_of_segment_def)
  ultimately show ?thesis
    by (simp add: compile_to_fspathverbs_def)
qed

lemma href_verbs_children:
  "href_verbs href (map Child qs) acc = Inr (acc @ map unquote qs)"
  by (induction qs arbitrary: acc) simp_all

lemma quote_byte_chars: "set (quote_byte c) \<subseteq> insert c (set ''%0123456789ABCDEF'')"
proof -
  have "\<And>d. d < 16 \<Longrightarrow> hex_digit d \<in> set ''0123456789ABCDEF''"
    unfolding hex_digit_def by (rule nth_mem) simp
  then have "hex_digit (of_char c div 16) \<in> set ''0123456789ABCDEF''"
    and "hex_digit (of_char c mod 16) \<in> set ''0123456789ABCDEF''"
    using of_char_mod_256 [of c, where ?'a = nat]
    by (simp_all add: less_mult_imp_div_less)
  then show ?thesis
    by (auto simp: quote_byte_def)
qed

lemma quote_no_slash: "CHR ''/'' \<notin> set c \<Longrightarrow> CHR ''/'' \<notin> set (quote c)"
proof
  assume c: "CHR ''/'' \<notin> set c" and "CHR ''/'' \<in> set (quote c)"
  then obtain x where x: "x \<in> set c" "CHR ''/'' \<in> set (quote_byte x)"
    by (auto simp: quote_def)
  with quote_byte_chars [of x] have "CHR ''/'' = x \<or> CHR ''/'' \<in> set ''%0123456789ABCDEF''"
    by blast
  with x c show False by auto
qed

lemma quote_valid:
  assumes "valid_component c"
  shows "quote c \<noteq> [] \<and> CHR ''/'' \<notin> set (quote c) \<and> quote c \<noteq> ''.'' \<and> quote c \<noteq> ''..''"
proof -
  have inj: "\<And>s. quote c = s \<Longrightarrow> c = unquote s"
    using unquote_quote [of c] by simp
  from assms inj [of "[]"] have "quote c \<noteq> []"
    by (auto simp: valid_component_def)
  moreover from assms inj [of "''.''"] have "quote c \<noteq> ''.''"
    by (auto simp: valid_component_def)
  moreover from assms inj [of "''..''"] have "quote c \<noteq> ''..''"
    by (auto simp: valid_component_def)
  moreover from assms have "CHR ''/'' \<notin> set (quote c)"
    by (simp add: valid_component_def quote_no_slash)
  ultimately show ?thesis by simp
qed

lemma href_round_trip:
  assumes "list_all valid_component cs"
  shows "href_to_remote_path_components cwd h p (remote_path_components_to_href h p cs) = Inr cs"
proof -
  define base where "base = ''http://'' @ h @ '':'' @ str_of_int p"
  define qs where "qs = map quote cs"
  have href: "remote_path_components_to_href h p cs = base @ CHR ''/'' # str_join ''/'' qs"
    by (simp add: remote_path_components_to_href_def base_def qs_def)
  have qs: "\<forall>q \<in> set qs. q \<noteq> [] \<and> CHR ''/'' \<notin> set q \<and> q \<noteq> ''.'' \<and> q \<noteq> ''..''"
    using assms quote_valid by (auto simp: qs_def list_all_iff)
  have sw: "startswith (base @ CHR ''/'' # str_join ''/'' qs) base"
    by (simp add: startswith_def)
  have P1: "base \<noteq> []" "\<not> startswith base ''/''"
    by (simp_all add: base_def startswith_def)
  have P2: "last base \<noteq> CHR ''/''"
    using str_of_int_chars [of p] by (simp add: base_def)
  have D: "last (str_split (CHR ''/'') (pre @ base)) \<noteq> ''.'' \<and>
      last (str_split (CHR ''/'') (pre @ base)) \<noteq> ''..''" for pre
  proof -
    have "CHR ''/'' \<notin> set (CHR '':'' # str_of_int p)"
      using str_of_int_chars [of p] by simp
    then have "last (str_split (CHR ''/'') ((pre @ ''http://'' @ h) @ (CHR '':'' # str_of_int p))) =
        last (str_split (CHR ''/'') (pre @ ''http://'' @ h)) @ CHR '':'' # str_of_int p"
      by (rule last_str_split_append)
    then have "last (str_split (CHR ''/'') (pre @ base)) =
        last (str_split (CHR ''/'') (pre @ ''http://'' @ h)) @ CHR '':'' # str_of_int p"
      by (simp add: base_def)
    moreover have "CHR '':'' \<in> set (last (str_split (CHR ''/'') (pre @ ''http://'' @ h)) @ CHR '':'' # str_of_int p)"
      by simp
    ultimately have "CHR '':'' \<in> set (last (str_split (CHR ''/'') (pre @ base)))"
      by simp
    then show ?thesis by auto
  qed
  have rel: "relpath cwd (base @ CHR ''/'' # str_join ''/'' qs) base =
      Inr (if qs = [] then ''.'' else str_join ''/'' qs)"
    using P1 P2 D qs by (rule relpath_below)
  have verbs: "href_verbs x (compile_to_fspathverbs (if qs = [] then ''.'' else str_join ''/'' qs)) []
      = Inr cs" for x
  proof (cases "qs = []")
    case True
    then have "cs = []" by (simp add: qs_def)
    with True show ?thesis
      by (simp add: compile_to_fspathverbs_def has_root_def path_segments_def verb_of_segment_def)
  next
    case False
    with qs have "compile_to_fspathverbs (str_join ''/'' qs) = map Child qs"
      by (intro compile_children)
    with False have "href_verbs x (compile_to_fspathverbs (if qs = [] then ''.'' else str_join ''/'' qs)) []
        = Inr (map unquote qs)"
      by (simp add: href_verbs_children)
    moreover have "map unquote qs = cs"
      by (simp add: qs_def unquote_quote comp_def)
    ultimately show ?thesis by simp
  qed
  show ?thesis
    unfolding href href_to_remote_path_components_def Let_def
    using sw rel verbs by (simp add: base_def)
qed


lemma normalize_segments_valid:
  "normalize_segments segs acc = Some cs \<Longrightarrow> \<forall>s \<in> set segs. s \<noteq> [] \<and> CHR ''/'' \<notin> set s \<Longrightarrow>
     list_all valid_component acc \<Longrightarrow> list_all valid_component cs"
proof (induction segs arbitrary: acc)
  case Nil
  then show ?case by simp
next
  case (Cons s segs)
  have b: "list_all valid_component (butlast acc)"
    using Cons.prems(3) by (auto simp: list_all_iff dest: in_set_butlastD)
  from Cons.prems(2) have s: "s \<noteq> []" "CHR ''/'' \<notin> set s"
    and segs: "\<forall>s \<in> set segs. s \<noteq> [] \<and> CHR ''/'' \<notin> set s"
    by simp_all
  show ?case
  proof (cases "s = ''.''")
    case True
    with Cons.prems(1) have "normalize_segments segs acc = Some cs" by simp
    from Cons.IH [OF this segs Cons.prems(3)] show ?thesis .
  next
    case False
    note not_dot = this
    show ?thesis
    proof (cases "s = ''..''")
      case True
      with Cons.prems(1) have "normalize_segments segs (butlast acc) = Some cs"
        by (simp split: if_splits)
      from Cons.IH [OF this segs b] show ?thesis .
    next
      case False
      with not_dot Cons.prems(1) have n: "normalize_segments segs (acc @ [s]) = Some cs"
        by simp
      from False not_dot s have "valid_component s"
        by (simp add: valid_component_def)
      with Cons.prems(3) have "list_all valid_component (acc @ [s])" by simp
      from Cons.IH [OF n segs this] show ?thesis .
    qed
  qed
qed

lemma normal_form_valid: "normal_form path = Some cs \<Longrightarrow> list_all valid_component cs"
proof -
  assume nf: "normal_form path = Some cs"
  have "\<forall>s \<in> set (path_segments path). s \<noteq> [] \<and> CHR ''/'' \<notin> set s"
    using str_split_sep_free [of _ "CHR ''/''" path] by (auto simp: path_segments_def)
  with nf show ?thesis
    unfolding normal_form_def by (rule normalize_segments_valid) simp
qed

lemma parsed_components_valid:
  assumes "remote_path_to_remote_path_components path = Inr cs \<or>
     relative_local_path_to_relative_local_path_components path = Inr cs"
  shows "list_all valid_component cs"
proof -
  from assms have "normal_form path = Some cs"
    by (auto simp: remote_parser_normal_form local_parser_normal_form
        split: option.splits if_splits)
  then show ?thesis by (rule normal_form_valid)
qed
section \<open>Counting creation requests\<close>

lemma str_join_snoc: "qs \<noteq> [] \<Longrightarrow> str_join sep (qs @ [q]) = str_join sep qs @ sep @ q"
  by (induction sep qs rule: str_join.induct) auto

lemma href_inj:
  assumes "list_all valid_component cs1" "list_all valid_component cs2"
    and eq: "remote_path_components_to_href h p cs1 = remote_path_components_to_href h p cs2"
  shows "cs1 = cs2"
proof -
  have "href_to_remote_path_components [] h p (remote_path_components_to_href h p cs1) = Inr cs1"
    using assms(1) by (rule href_round_trip)
  then have "href_to_remote_path_components [] h p (remote_path_components_to_href h p cs2) = Inr cs1"
    by (simp only: eq)
  moreover have "href_to_remote_path_components [] h p (remote_path_components_to_href h p cs2) = Inr cs2"
    using assms(2) by (rule href_round_trip)
  ultimately have "Inr cs1 = (Inr cs2 :: error + string list)"
    by (rule trans [OF sym])
  then show ?thesis by (simp only: sum.inject)
qed

lemma strip_last_segment:
  "sep \<notin> set q \<Longrightarrow> rev (dropWhile (\<lambda>c. c \<noteq> sep) (rev (a @ sep # q))) = a @ [sep]"
  by (induction q rule: rev_induct) auto

lemma url_parent_href:
  assumes "list_all valid_component (ys @ [y])"
  shows "url_parent (remote_path_components_to_href h p []) (remote_path_components_to_href h p (ys @ [y]))
     = remote_path_components_to_href h p ys"
proof -
  define B where "B = ''http://'' @ h @ '':'' @ str_of_int p"
  from assms have "valid_component y" by simp
  then have q: "CHR ''/'' \<notin> set (quote y)" using quote_valid by blast
  have root: "remote_path_components_to_href h p [] = B @ ''/''"
    by (simp add: remote_path_components_to_href_def B_def)
  show ?thesis
  proof (cases "ys = []")
    case True
    have "remote_path_components_to_href h p [y] = B @ CHR ''/'' # quote y"
      by (simp add: remote_path_components_to_href_def B_def)
    with strip_last_segment [OF q, of B]
    have "rev (dropWhile (\<lambda>c. c \<noteq> CHR ''/'') (rev (remote_path_components_to_href h p [y])))
        = B @ ''/''"
      by simp
    with True root show ?thesis
      by (simp add: url_parent_def Let_def)
  next
    case False
    then have j: "str_join ''/'' (map quote (ys @ [y])) = str_join ''/'' (map quote ys) @ ''/'' @ quote y"
      by (simp add: str_join_snoc)
    define J where "J = str_join ''/'' (map quote ys)"
    have u: "remote_path_components_to_href h p (ys @ [y]) = (B @ ''/'' @ J) @ CHR ''/'' # quote y"
      unfolding remote_path_components_to_href_def j by (simp add: B_def J_def)
    have pre: "rev (dropWhile (\<lambda>c. c \<noteq> CHR ''/'') (rev (remote_path_components_to_href h p (ys @ [y]))))
        = (B @ ''/'' @ J) @ ''/''"
      unfolding u using q by (rule strip_last_segment)
    have ne: "(B @ ''/'' @ J) @ ''/'' \<noteq> B @ ''/''"
      by simp
    have ys: "remote_path_components_to_href h p ys = B @ ''/'' @ J"
      by (simp add: remote_path_components_to_href_def B_def J_def)
    have bl: "butlast ((B @ ''/'' @ J) @ ''/'') = B @ ''/'' @ J"
      by (simp only: butlast_snoc)
    show ?thesis
      unfolding url_parent_def Let_def pre root ys
      by (simp only: ne if_False bl)
  qed
qed


lemma create_directories_empty:
  "create_directories_from_remote_path_components self mkcol [] srv = Some (True, srv)"
  by (subst create_directories_from_remote_path_components.simps) simp

lemma create_directories_nonempty:
  "cs \<noteq> [] \<Longrightarrow>
   create_directories_from_remote_path_components self mkcol cs srv =
     (case create_directory_from_remote_path_components self mkcol cs srv of
        (created, srv1) \<Rightarrow>
          if created then Some (True, srv1)
          else
            (case create_directories_from_remote_path_components self mkcol (butlast cs) srv1 of
               None \<Rightarrow> None
             | Some (parents_created, srv2) \<Rightarrow>
                 if parents_created
                 then Some (create_directory_from_remote_path_components self mkcol cs srv2)
                 else Some (False, srv2)))"
  by (subst create_directories_from_remote_path_components.simps)
     (simp split: prod.splits option.splits)

lemma create_directory_logged_dav:
  "create_directory_from_remote_path_components \<lparr>host = h, port = p\<rparr> (logged (dav_mkcol root)) cs (S, log) =
     (if remote_path_components_to_href h p cs \<notin> S \<and>
         url_parent root (remote_path_components_to_href h p cs) \<in> S
      then (True, (insert (remote_path_components_to_href h p cs) S,
                   log @ [remote_path_components_to_href h p cs]))
      else (False, (S, log @ [remote_path_components_to_href h p cs])))"
  by (simp add: create_directory_from_remote_path_components_def logged_def dav_mkcol_def Let_def)

lemma ensure_missing_chain:
  assumes "list_all valid_component (pre @ miss)" "miss \<noteq> []"
    and "remote_path_components_to_href h p pre \<in> S"
    and "\<forall>k. 0 < k \<and> k \<le> length miss \<longrightarrow> remote_path_components_to_href h p (pre @ take k miss) \<notin> S"
  shows "\<exists>reqs.
     create_directories_from_remote_path_components \<lparr>host = h, port = p\<rparr>
       (logged (dav_mkcol (remote_path_components_to_href h p []))) (pre @ miss) (S, log) =
     Some (True, (S \<union> (\<lambda>k. remote_path_components_to_href h p (pre @ take k miss)) ` {1..length miss},
                  log @ reqs)) \<and>
     length reqs = 2 * length miss - 1"
  using assms
proof (induction miss arbitrary: log rule: rev_induct)
  case Nil
  then show ?case by simp
next
  case (snoc x m)
  let ?self = "\<lparr>host = h, port = p\<rparr>"
  let ?root = "remote_path_components_to_href h p []"
  let ?T = "logged (dav_mkcol ?root)"
  let ?cs = "pre @ m @ [x]"
  define u where "u = remote_path_components_to_href h p ?cs"
  define par where "par = remote_path_components_to_href h p (pre @ m)"
  have valid: "list_all valid_component ((pre @ m) @ [x])"
    using snoc.prems(1) by simp
  have parent: "url_parent ?root u = par"
    unfolding u_def par_def using url_parent_href [OF valid] by simp
  have u_missing: "u \<notin> S"
    using snoc.prems(4) [rule_format, of "Suc (length m)"] by (simp add: u_def)
  have ne: "?cs \<noteq> []" by simp
  have bl: "butlast ?cs = pre @ m"
    by (simp add: butlast_append)
  show ?case
  proof (cases "m = []")
    case True
    with snoc.prems(3) have "par \<in> S" by (simp add: par_def)
    with u_missing parent have first:
      "create_directory_from_remote_path_components ?self ?T ?cs (S, log) = (True, (insert u S, log @ [u]))"
      by (simp add: create_directory_logged_dav u_def)
    have res: "create_directories_from_remote_path_components ?self ?T ?cs (S, log) =
        Some (True, (insert u S, log @ [u]))"
      by (subst create_directories_nonempty [OF ne]) (simp add: first)
    have img: "S \<union> (\<lambda>k. remote_path_components_to_href h p (pre @ take k (m @ [x]))) ` {1..length (m @ [x])}
        = insert u S"
      using True by (simp add: u_def)
    show ?thesis
      by (rule exI [of _ "[u]"]) (simp only: res img, simp add: True)
  next
    case False
    then have lm: "0 < length m" by simp
    have par_missing: "par \<notin> S"
      using snoc.prems(4) [rule_format, of "length m"] lm by (simp add: par_def)
    with parent have first:
      "create_directory_from_remote_path_components ?self ?T ?cs (S, log) = (False, (S, log @ [u]))"
      by (simp add: create_directory_logged_dav u_def)
    have v': "list_all valid_component (pre @ m)"
      using snoc.prems(1) by simp
    have miss': "\<forall>k. 0 < k \<and> k \<le> length m \<longrightarrow> remote_path_components_to_href h p (pre @ take k m) \<notin> S"
      using snoc.prems(4) by (auto simp: take_append dest: spec)
    define S2 where "S2 = S \<union> (\<lambda>k. remote_path_components_to_href h p (pre @ take k m)) ` {1..length m}"
    from snoc.IH [OF v' False snoc.prems(3) miss', of "log @ [u]"] obtain reqs where
      rec: "create_directories_from_remote_path_components ?self ?T (pre @ m) (S, log @ [u]) =
          Some (True, (S2, (log @ [u]) @ reqs))"
      and len: "length reqs = 2 * length m - 1"
      unfolding S2_def by blast
    have "length m \<in> {1..length m}"
      using False by (cases m) simp_all
    then have "remote_path_components_to_href h p (pre @ take (length m) m)
        \<in> (\<lambda>k. remote_path_components_to_href h p (pre @ take k m)) ` {1..length m}"
      by (rule imageI)
    then have par_in: "par \<in> S2"
      unfolding S2_def par_def by simp
    have u_new: "u \<notin> S2"
    proof
      assume "u \<in> S2"
      with u_missing obtain k where k: "1 \<le> k" "k \<le> length m"
        and eq: "u = remote_path_components_to_href h p (pre @ take k m)"
        unfolding S2_def by auto
      have "list_all valid_component (pre @ take k m)"
        using v' by (auto simp: list_all_iff dest: in_set_takeD)
      with snoc.prems(1) eq have "?cs = pre @ take k m"
        unfolding u_def by (intro href_inj)
      then have "length ?cs = length (pre @ take k m)" by (rule arg_cong)
      with k show False by simp
    qed
    with parent par_in have retry:
      "create_directory_from_remote_path_components ?self ?T ?cs (S2, (log @ [u]) @ reqs) =
         (True, (insert u S2, ((log @ [u]) @ reqs) @ [u]))"
      by (simp add: create_directory_logged_dav u_def)
    have res: "create_directories_from_remote_path_components ?self ?T ?cs (S, log) =
        Some (True, (insert u S2, log @ ([u] @ reqs @ [u])))"
      by (subst create_directories_nonempty [OF ne]) (simp add: first bl rec retry [simplified])
    have img: "{1..length (m @ [x])} = insert (Suc (length m)) {1..length m}"
      by auto
    have img': "S \<union> (\<lambda>k. remote_path_components_to_href h p (pre @ take k (m @ [x]))) ` {1..length (m @ [x])}
        = insert u S2"
      unfolding img S2_def by (auto simp: u_def take_append)
    have len': "length ([u] @ reqs @ [u]) = 2 * length (m @ [x]) - 1"
      using len lm by simp
    show ?thesis
      by (rule exI [of _ "[u] @ reqs @ [u]"]) (simp only: res img' len' simp_thms)
  qed
qed


lemmas href_render = remote_path_components_to_href_def str_of_int_def str_of_nat.simps quote_def
  quote_byte_def always_safe_def hex_digit_def

section \<open>The get planner's loops\<close>

lemma download_files_all:
  "[] \<notin> set files \<Longrightarrow>
     download_files new_prefix files =
       (map (\<lambda>f. DownloadRemoteFile f (new_prefix @ [last f])) files, None)"
  by (induction files) auto


lemmas listing_eval = list_remote_file_or_directory_def classify_listings_def dict_def
  iterate_listings_and_is_directories_def href_eval href_render

section \<open>The put planner's stream\<close>

lemma walk_actions_paths:
  "a \<in> set (fst (walk_actions cwd top_path pwb levels)) \<Longrightarrow>
     \<exists>rest. rest \<noteq> [] \<and> put_action_path a = pwb @ rest"
proof (induction levels)
  case Nil
  then show ?case by simp
next
  case (Cons level levels)
  obtain dirpath dirnames filenames where level: "level = (dirpath, dirnames, filenames)"
    by (cases level)
  show ?case
  proof (cases "relpath cwd dirpath top_path")
    case (Inl e)
    with Cons.prems level show ?thesis by simp
  next
    case (Inr rp)
    show ?thesis
    proof (cases "relative_local_path_to_relative_local_path_components rp")
      case (Inl e)
      with Cons.prems level Inr show ?thesis by simp
    next
      case rel: (Inr rel)
      from Cons.prems level Inr rel
      consider (dir) d where "a = CreateRemoteDirectory ((pwb @ rel) @ [d])"
        | (upload) f where "a = UploadLocalFile (posixpath_join dirpath f) ((pwb @ rel) @ [f])"
        | (later) "a \<in> set (fst (walk_actions cwd top_path pwb levels))"
        by (auto simp: Let_def split: prod.splits)
      then show ?thesis
      proof cases
        case dir
        then show ?thesis by (intro exI [of _ "rel @ [d]"]) simp
      next
        case upload
        then show ?thesis by (intro exI [of _ "rel @ [f]"]) simp
      next
        case later
        then show ?thesis by (rule Cons.IH)
      qed
    qed
  qed
qed

lemma walk_actions_error:
  "snd (walk_actions cwd top_path pwb levels) \<noteq> Some (ValueError (''Invalid local path: '' @ x))"
proof (induction levels)
  case Nil
  then show ?case by simp
next
  case (Cons level levels)
  obtain dirpath dirnames filenames where level: "level = (dirpath, dirnames, filenames)"
    by (cases level)
  have r: "relpath cwd dirpath top_path = Inl e \<Longrightarrow> e = ValueError ''no path specified''" for e
    by (auto simp: relpath_def Let_def split: if_splits list.splits)
  have p: "relative_local_path_to_relative_local_path_components rp = Inl e \<Longrightarrow>
      e = ValueError (''Invalid relative local path: '' @ rp)" for rp e
    by (auto simp: local_parser_normal_form split: if_splits option.splits)
  show ?case
  proof (cases "relpath cwd dirpath top_path")
    case (Inl e)
    with r [OF Inl] level show ?thesis by simp
  next
    case (Inr rp)
    show ?thesis
    proof (cases "relative_local_path_to_relative_local_path_components rp")
      case (Inl e)
      with p [OF Inl] level Inr show ?thesis by simp
    next
      case rel: (Inr rel)
      with Cons.IH level Inr show ?thesis
        by (auto simp: Let_def split: prod.splits)
    qed
  qed
qed


lemmas put_eval = iterate_put_actions_def abspath_def normpath_def initial_slashes_def
  startswith_def posixpath_join_def basename_def isfile_def isdir_def stat_def listdir_def
  relpath_def local_parser_normal_form normal_form_def path_segments_def has_root_def
  scenario_fs_def Let_def

lemma scenario_put:
  "iterate_put_actions ''/home'' scenario_fs ''a'' [''dest''] =
     ([CreateRemoteDirectory [''dest'', ''a''],
       CreateRemoteDirectory [''dest'', ''a'', ''sub''],
       UploadLocalFile ''/home/a/f.txt'' [''dest'', ''a'', ''f.txt'']], None)"
  by (simp add: put_eval)

lemma iterate_put_actions_cases:
  "iterate_put_actions cwd fs local_path prefix =
     (if basename (abspath cwd local_path) \<noteq> [] \<and> isfile fs (abspath cwd local_path) then
        ([UploadLocalFile (abspath cwd local_path) (prefix @ [basename (abspath cwd local_path)])], None)
      else if basename (abspath cwd local_path) \<noteq> [] \<and> isdir fs (abspath cwd local_path) then
        (CreateRemoteDirectory (prefix @ [basename (abspath cwd local_path)]) #
           fst (walk_actions cwd (abspath cwd local_path) (prefix @ [basename (abspath cwd local_path)])
                  (os_walk (abspath cwd local_path) (listdir fs (abspath cwd local_path)))),
         snd (walk_actions cwd (abspath cwd local_path) (prefix @ [basename (abspath cwd local_path)])
                (os_walk (abspath cwd local_path) (listdir fs (abspath cwd local_path)))))
      else ([], Some (ValueError (''Invalid local path: '' @ local_path))))"
  unfolding iterate_put_actions_def Let_def by (simp add: case_prod_beta)

section \<open>The put planner walks in pre-order\<close>

lemma normpath_comps_clean:
  "0 < i \<Longrightarrow> \<forall>x \<in> set new. x \<noteq> ''.'' \<and> x \<noteq> ''..'' \<Longrightarrow>
     \<forall>x \<in> set (normpath_comps i comps new). x \<noteq> ''.'' \<and> x \<noteq> ''..''"
proof (induction comps arbitrary: new)
  case Nil
  then show ?case by simp
next
  case (Cons seg comps)
  have b: "\<forall>x \<in> set (butlast new). x \<noteq> ''.'' \<and> x \<noteq> ''..''"
    using Cons.prems(2) by (auto dest: in_set_butlastD)
  consider (skip) "seg = [] \<or> seg = ''.''"
    | (push) "\<not> (seg = [] \<or> seg = ''.'')" "seg \<noteq> ''..''"
    | (pop) "seg = ''..''" "new \<noteq> []"
    | (stay) "seg = ''..''" "new = []"
    by blast
  then show ?case
  proof cases
    case skip
    then have eq: "normpath_comps i (seg # comps) new = normpath_comps i comps new" by auto
    from Cons.IH [OF Cons.prems] show ?thesis by (simp only: eq)
  next
    case push
    then have eq: "normpath_comps i (seg # comps) new = normpath_comps i comps (new @ [seg])"
      by simp
    have pre: "\<forall>x \<in> set (new @ [seg]). x \<noteq> ''.'' \<and> x \<noteq> ''..''"
      using Cons.prems(2) push by simp
    from Cons.IH [OF Cons.prems(1) pre] show ?thesis by (simp only: eq)
  next
    case pop
    with Cons.prems have "last new \<noteq> ''..''" by simp
    with pop Cons.prems(1) have eq:
      "normpath_comps i (seg # comps) new = normpath_comps i comps (butlast new)"
      by simp
    from Cons.IH [OF Cons.prems(1) b] show ?thesis by (simp only: eq)
  next
    case stay
    with Cons.prems(1) have eq: "normpath_comps i (seg # comps) new = normpath_comps i comps new"
      by simp
    from Cons.IH [OF Cons.prems] show ?thesis by (simp only: eq)
  qed
qed

lemma initial_slashes_pos: "startswith X ''/'' \<Longrightarrow> 0 < initial_slashes X"
  by (simp add: initial_slashes_def)

lemma abspath_form:
  assumes "startswith cwd ''/''"
  shows "\<exists>i S. 0 < i \<and> list_all valid_component S \<and>
     abspath cwd p = replicate i (CHR ''/'') @ str_join ''/'' S"
proof -
  define X where "X = (if startswith p ''/'' then p else posixpath_join cwd p)"
  from assms have cwd: "cwd \<noteq> []" "hd cwd = CHR ''/''"
    by (cases cwd; simp add: startswith_def)+
  have X: "startswith X ''/''"
  proof (cases "startswith p ''/''")
    case True
    then show ?thesis by (simp add: X_def)
  next
    case False
    with cwd show ?thesis
      by (cases cwd) (simp_all add: X_def posixpath_join_def startswith_def)
  qed
  then have ne: "X \<noteq> []" by (auto simp: startswith_def)
  define i where "i = initial_slashes X"
  define S where "S = normpath_comps i (str_split (CHR ''/'') X) []"
  have i: "0 < i" unfolding i_def using X by (rule initial_slashes_pos)
  have el: "\<forall>x \<in> set S. x \<noteq> [] \<and> CHR ''/'' \<notin> set x"
    using normpath_comps_elements [of _ i "str_split (CHR ''/'') X" "[]"]
      str_split_sep_free [of _ "CHR ''/''" X]
    unfolding S_def by auto
  have cl: "\<forall>x \<in> set S. x \<noteq> ''.'' \<and> x \<noteq> ''..''"
    unfolding S_def using i by (rule normpath_comps_clean) simp
  from el cl have valid: "list_all valid_component S"
    by (simp add: list_all_iff valid_component_def)
  have out: "replicate i (CHR ''/'') @ str_join ''/'' S \<noteq> []"
    using i by simp
  have "normpath X = replicate i (CHR ''/'') @ str_join ''/'' S"
    unfolding normpath_def Let_def i_def [symmetric] S_def [symmetric]
    using ne out by (simp only: if_False)
  then have "abspath cwd p = replicate i (CHR ''/'') @ str_join ''/'' S"
    by (simp add: abspath_def X_def)
  with i valid show ?thesis by blast
qed


lemma last_split_slashes:
  "last (str_split sep (replicate i sep @ r)) = last (str_split sep r)"
  by (induction i) (simp_all add: str_split_not_Nil)

lemma str_join_last_segment:
  assumes "S \<noteq> []"
  shows "\<exists>front. str_join sep S = front @ last S"
proof -
  from assms obtain ys y where S: "S = ys @ [y]"
    by (cases S rule: rev_cases) auto
  show ?thesis
  proof (cases "ys = []")
    case True
    with S show ?thesis by simp
  next
    case False
    with S show ?thesis by (simp add: str_join_snoc)
  qed
qed

lemma last_str_join:
  "S \<noteq> [] \<Longrightarrow> last S \<noteq> [] \<Longrightarrow> last (str_join sep S) = last (last S)"
  using str_join_last_segment [of S sep] by auto

lemma str_join_nonempty: "S \<noteq> [] \<Longrightarrow> last S \<noteq> [] \<Longrightarrow> str_join sep S \<noteq> []"
  using str_join_last_segment [of S sep] by auto

lemma absolute_form_facts:
  assumes i: "0 < i" and S: "list_all valid_component S"
    and top: "top_path = replicate i (CHR ''/'') @ str_join ''/'' S"
  shows "filter (\<lambda>x. x \<noteq> []) (str_split (CHR ''/'') top_path) = S"
    and "basename top_path = (if S = [] then [] else last S)"
    and "startswith top_path ''/''"
    and "S \<noteq> [] \<Longrightarrow> last top_path \<noteq> CHR ''/''"
proof -
  have el: "\<forall>x \<in> set S. x \<noteq> [] \<and> CHR ''/'' \<notin> set x"
    using S by (simp add: list_all_iff valid_component_def)
  show "filter (\<lambda>x. x \<noteq> []) (str_split (CHR ''/'') top_path) = S"
    unfolding top using el by (rule split_slashes_join)
  show "basename top_path = (if S = [] then [] else last S)"
  proof (cases "S = []")
    case True
    then show ?thesis
      by (simp add: basename_def top last_split_slashes [where r = "[]", simplified])
  next
    case False
    with el have "str_split (CHR ''/'') (str_join ''/'' S) = S"
      by (simp add: str_split_join)
    with False show ?thesis
      by (simp add: basename_def top last_split_slashes)
  qed
  show "startswith top_path ''/''"
    using i by (cases i) (simp_all add: top startswith_def)
  show "last top_path \<noteq> CHR ''/''" if ne: "S \<noteq> []"
  proof -
    from ne el have l: "last S \<noteq> []" "CHR ''/'' \<notin> set (last S)"
      by (simp_all add: last_in_set)
    with ne have j: "str_join ''/'' S \<noteq> []" "last (str_join ''/'' S) = last (last S)"
      by (simp_all add: str_join_nonempty last_str_join)
    from l have "last (last S) \<noteq> CHR ''/''" by (rule last_not_sep)
    with j show ?thesis by (simp add: top)
  qed
qed

lemma commonprefix_same: "commonprefix S S = S"
  by (induction S) simp_all

lemma relpath_self: "P \<noteq> [] \<Longrightarrow> relpath cwd P P = Inr ''.''"
  by (simp add: relpath_def Let_def commonprefix_same)

lemma relpath_below_absolute:
  assumes P: "P \<noteq> []" "startswith P ''/''" "last P \<noteq> CHR ''/''"
    and D: "last (str_split (CHR ''/'') P) \<noteq> ''.''" "last (str_split (CHR ''/'') P) \<noteq> ''..''"
    and qs: "\<forall>q \<in> set qs. q \<noteq> [] \<and> CHR ''/'' \<notin> set q \<and> q \<noteq> ''.'' \<and> q \<noteq> ''..''"
  shows "relpath cwd (P @ CHR ''/'' # str_join ''/'' qs) P =
     Inr (if qs = [] then ''.'' else str_join ''/'' qs)"
proof -
  let ?r = "CHR ''/'' # str_join ''/'' qs"
  from P have ar: "startswith (P @ ?r) ''/''"
    by (cases P) (simp_all add: startswith_def)
  define S where "S = filter (\<lambda>x. x \<noteq> []) (str_split (CHR ''/'') (normpath P))"
  have start: "filter (\<lambda>x. x \<noteq> []) (str_split (CHR ''/'') (abspath cwd P)) = S"
    using P by (simp add: abspath_def S_def)
  have path: "filter (\<lambda>x. x \<noteq> []) (str_split (CHR ''/'') (abspath cwd (P @ ?r))) = S @ qs"
    using ar normpath_list_extend [OF P(1) P(3) D qs] by (simp add: abspath_def S_def)
  have rel: "relpath cwd (P @ ?r) P =
      (case qs of [] \<Rightarrow> Inr ''.'' | a # p \<Rightarrow> Inr (foldl posixpath_join a p))"
    unfolding relpath_def Let_def start path
    by (simp add: commonprefix_append)
  show ?thesis
  proof (cases qs)
    case Nil
    with rel show ?thesis by simp
  next
    case (Cons a p)
    with qs have a: "a \<noteq> []" "CHR ''/'' \<notin> set a"
      and p: "\<forall>b \<in> set p. b \<noteq> [] \<and> CHR ''/'' \<notin> set b"
      by simp_all
    from a have "last a \<noteq> CHR ''/''" by (rule last_not_sep)
    with a p have "foldl posixpath_join a p = str_join ''/'' (a # p)"
      by (intro foldl_posixpath_join)
    with rel Cons show ?thesis by simp
  qed
qed


lemma below_Nil: "below top_path [] = top_path"
  by (simp add: below_def)

lemma below_snoc: "below top_path (names @ [n]) = below top_path names @ CHR ''/'' # n"
  by (simp add: below_def)

lemma below_join:
  "names \<noteq> [] \<Longrightarrow> below top_path names = top_path @ CHR ''/'' # str_join ''/'' names"
  by (cases names) (simp_all add: below_def str_join_Cons del: str_join.simps)

lemma last_below:
  assumes "top_path \<noteq> []" "last top_path \<noteq> CHR ''/''" "list_all valid_component names"
  shows "below top_path names \<noteq> [] \<and> last (below top_path names) \<noteq> CHR ''/''"
proof (cases names rule: rev_cases)
  case Nil
  with assms show ?thesis by (simp add: below_Nil)
next
  case (snoc ns n)
  with assms(3) have "n \<noteq> []" "CHR ''/'' \<notin> set n"
    by (simp_all add: valid_component_def)
  then have "last n \<noteq> CHR ''/''" by (rule last_not_sep)
  with snoc \<open>n \<noteq> []\<close> show ?thesis by (simp add: below_snoc)
qed

lemma join_below:
  assumes "top_path \<noteq> []" "last top_path \<noteq> CHR ''/''" "list_all valid_component names"
    and n: "valid_component n"
  shows "posixpath_join (below top_path names) n = below top_path (names @ [n])"
proof -
  from n have "\<not> startswith n ''/''"
    by (cases n) (auto simp: valid_component_def startswith_def)
  with last_below [OF assms(1-3)] show ?thesis
    by (simp add: posixpath_join_def below_snoc)
qed

lemma relpath_level:
  assumes P: "top_path \<noteq> []" "startswith top_path ''/''" "last top_path \<noteq> CHR ''/''"
    and D: "last (str_split (CHR ''/'') top_path) \<noteq> ''.''"
      "last (str_split (CHR ''/'') top_path) \<noteq> ''..''"
    and names: "list_all valid_component names"
  shows "relpath cwd (below top_path names) top_path =
     Inr (if names = [] then ''.'' else str_join ''/'' names)"
proof (cases "names = []")
  case True
  with P(1) show ?thesis by (simp add: below_Nil relpath_self)
next
  case False
  from names have "\<forall>q \<in> set names. q \<noteq> [] \<and> CHR ''/'' \<notin> set q \<and> q \<noteq> ''.'' \<and> q \<noteq> ''..''"
    by (simp add: list_all_iff valid_component_def)
  from relpath_below_absolute [OF P D this, of cwd] False show ?thesis
    by (simp add: below_join)
qed

lemma relative_local_path_verbs_children:
  "relative_local_path_verbs path (map Child qs) acc = Inr (acc @ qs)"
  by (induction qs arbitrary: acc) simp_all

lemma parse_level:
  assumes "list_all valid_component names"
  shows "relative_local_path_to_relative_local_path_components
     (if names = [] then ''.'' else str_join ''/'' names) = Inr names"
proof (cases "names = []")
  case True
  then show ?thesis
    by (simp add: local_parser_normal_form normal_form_def path_segments_def has_root_def)
next
  case False
  from assms have "\<forall>q \<in> set names. q \<noteq> [] \<and> CHR ''/'' \<notin> set q \<and> q \<noteq> ''.'' \<and> q \<noteq> ''..''"
    by (simp add: list_all_iff valid_component_def)
  with False have "compile_to_fspathverbs (str_join ''/'' names) = map Child names"
    by (rule compile_children)
  with False show ?thesis
    by (simp add: relative_local_path_to_relative_local_path_components_def
        relative_local_path_verbs_children)
qed

lemma walk_actions_append:
  "walk_actions cwd top_path pwb (A @ B) =
     (case walk_actions cwd top_path pwb A of
        (actions, None) \<Rightarrow>
          (case walk_actions cwd top_path pwb B of
             (actions', raised) \<Rightarrow> (actions @ actions', raised))
      | (actions, Some e) \<Rightarrow> (actions, Some e))"
proof (induction A)
  case Nil
  then show ?case by (simp split: prod.splits)
next
  case (Cons level A)
  obtain dirpath dirnames filenames where level: "level = (dirpath, dirnames, filenames)"
    by (cases level)
  show ?case
    unfolding level
    by (simp add: Cons.IH Let_def split: sum.splits prod.splits option.splits)
qed


lemma walk_refines_plan_aux:
  assumes P: "top_path \<noteq> []" "startswith top_path ''/''" "last top_path \<noteq> CHR ''/''"
    and D: "last (str_split (CHR ''/'') top_path) \<noteq> ''.''"
      "last (str_split (CHR ''/'') top_path) \<noteq> ''..''"
  shows "\<forall>names. topdir = below top_path names \<longrightarrow> list_all valid_component names \<longrightarrow>
       wf_entries entries \<longrightarrow>
       walk_actions cwd top_path pwb (os_walk topdir entries) =
         (spec_plan_level topdir (pwb @ names) entries, None)"
    and "\<forall>names. topdir2 = below top_path names \<longrightarrow> list_all valid_component names \<longrightarrow>
       wf_entries entries2 \<longrightarrow>
       walk_actions cwd top_path pwb (walk_subdirectories topdir2 entries2) =
         (spec_plan_below topdir2 (pwb @ names) entries2, None)"
proof (induction topdir entries and topdir2 entries2 rule: os_walk_walk_subdirectories.induct)
  case (1 topdir entries)
  show ?case
  proof (intro allI impI)
    fix names
    assume t: "topdir = below top_path names" and v: "list_all valid_component names"
      and wf: "wf_entries entries"
    from "1.IH" t v wf have sub:
      "walk_actions cwd top_path pwb (walk_subdirectories topdir entries) =
         (spec_plan_below topdir (pwb @ names) entries, None)"
      by blast
    have rel: "relpath cwd topdir top_path = Inr (if names = [] then ''.'' else str_join ''/'' names)"
      unfolding t using P D v by (rule relpath_level)
    have parse: "relative_local_path_to_relative_local_path_components
        (if names = [] then ''.'' else str_join ''/'' names) = Inr names"
      using v by (rule parse_level)
    show "walk_actions cwd top_path pwb (os_walk topdir entries) =
         (spec_plan_level topdir (pwb @ names) entries, None)"
      by (simp add: rel parse sub Let_def del: str_join.simps)
  qed
next
  case (2 topdir)
  show ?case by simp
next
  case (3 topdir name node entries)
  show ?case
  proof (intro allI impI)
    fix names
    assume t: "topdir = below top_path names" and v: "list_all valid_component names"
      and wf: "wf_entries ((name, node) # entries)"
    from wf have n: "valid_component name" and wf': "wf_entries entries"
      by simp_all
    from "3.IH"(2) t v wf' have rest:
      "walk_actions cwd top_path pwb (walk_subdirectories topdir entries) =
         (spec_plan_below topdir (pwb @ names) entries, None)"
      by blast
    have j: "posixpath_join topdir name = below top_path (names @ [name])"
      unfolding t using P(1) P(3) v n by (rule join_below)
    have v': "list_all valid_component (names @ [name])"
      using v n by simp
    show "walk_actions cwd top_path pwb (walk_subdirectories topdir ((name, node) # entries)) =
         (spec_plan_below topdir (pwb @ names) ((name, node) # entries), None)"
    proof (cases node)
      case RegularFile
      with rest show ?thesis by simp
    next
      case Special
      with rest show ?thesis by simp
    next
      case (Directory link sub)
      show ?thesis
      proof (cases link)
        case True
        with Directory rest show ?thesis by simp
      next
        case False
        from wf Directory have "wf_entries sub" by simp
        with "3.IH"(1) [OF Directory False] j v' have
          "walk_actions cwd top_path pwb (os_walk (posixpath_join topdir name) sub) =
             (spec_plan_level (posixpath_join topdir name) (pwb @ names @ [name]) sub, None)"
          by (metis append_assoc)
        with Directory False rest show ?thesis
          by (simp add: walk_actions_append del: os_walk.simps spec_plan_level.simps)
      qed
    qed
  qed
qed


lemma created_directories_append [simp]:
  "created_directories (A @ B) = created_directories A @ created_directories B"
  by (simp add: created_directories_def)

lemma created_directories_Cons:
  "created_directories (a # A) = created_directories [a] @ created_directories A"
  by (simp add: created_directories_def)

lemma in_created_directories:
  "d \<in> set (created_directories A) \<longleftrightarrow> CreateRemoteDirectory d \<in> set A"
  by (induction A) (auto simp: created_directories_def split: put_action.splits)

lemma parents_first_mono:
  "parents_first n C L \<Longrightarrow> C \<subseteq> C' \<Longrightarrow> parents_first n C' L"
proof (induction L arbitrary: C C')
  case Nil
  then show ?case by simp
next
  case (Cons a L)
  from Cons.prems have "parents_first n (C \<union> set (created_directories [a])) L"
    and "C \<union> set (created_directories [a]) \<subseteq> C' \<union> set (created_directories [a])"
    by auto
  then have "parents_first n (C' \<union> set (created_directories [a])) L"
    by (rule Cons.IH)
  with Cons.prems show ?case by auto
qed

lemma parents_first_append:
  "parents_first n C (A @ B) \<longleftrightarrow>
     parents_first n C A \<and> parents_first n (C \<union> set (created_directories A)) B"
proof (induction A arbitrary: C)
  case Nil
  then show ?case by (simp add: created_directories_def)
next
  case (Cons a A)
  have "C \<union> set (created_directories [a]) \<union> set (created_directories A) =
      C \<union> set (created_directories (a # A))"
    by (subst (2) created_directories_Cons) auto
  with Cons.IH [of "C \<union> set (created_directories [a])"] show ?case
    by simp
qed

lemma parents_first_leaves:
  assumes "\<forall>a \<in> set L. \<exists>x. put_action_path a = remote @ [x]"
    and "\<forall>k. n < k \<and> k \<le> length remote \<longrightarrow> take k remote \<in> C"
  shows "parents_first n C L"
  using assms
proof (induction L arbitrary: C)
  case Nil
  then show ?case by simp
next
  case (Cons a L)
  from Cons.prems(1) obtain x where x: "put_action_path a = remote @ [x]" by auto
  have here: "\<forall>k \<in> {n <..< length (put_action_path a)}. take k (put_action_path a) \<in> C"
    using Cons.prems(2) by (auto simp: x)
  have "parents_first n (C \<union> set (created_directories [a])) L"
    using Cons.prems by (intro Cons.IH) auto
  with here show ?case by simp
qed


lemma plan_parents_first_aux:
  shows "\<forall>C. (\<forall>k. n < k \<and> k \<le> length remote \<longrightarrow> take k remote \<in> C) \<longrightarrow>
       parents_first n C (spec_plan_level dirpath remote entries)"
    and "\<forall>C. (\<forall>k. n < k \<and> k \<le> length remote2 \<longrightarrow> take k remote2 \<in> C) \<and>
          (\<forall>name \<in> fst ` {e \<in> set entries2. is_directory_node (snd e)}. remote2 @ [name] \<in> C) \<longrightarrow>
       parents_first n C (spec_plan_below dirpath2 remote2 entries2)"
proof (induction dirpath remote entries and dirpath2 remote2 entries2
    rule: spec_plan_level_spec_plan_below.induct)
  case (1 dirpath remote entries)
  show ?case
  proof (intro allI impI)
    fix C
    assume pre: "\<forall>k. n < k \<and> k \<le> length remote \<longrightarrow> take k remote \<in> C"
    define dirnames where "dirnames = map fst (filter (\<lambda>entry. is_directory_node (snd entry)) entries)"
    define creates where "creates = map (\<lambda>dirname. CreateRemoteDirectory (remote @ [dirname])) dirnames"
    define uploads where "uploads =
        map (\<lambda>filename. UploadLocalFile (posixpath_join dirpath filename) (remote @ [filename]))
          (map fst (filter (\<lambda>entry. \<not> is_directory_node (snd entry)) entries))"
    define C' where "C' = C \<union> set (created_directories (creates @ uploads))"
    have leaves: "parents_first n C (creates @ uploads)"
      using _ pre by (rule parents_first_leaves) (auto simp: creates_def uploads_def)
    have sub: "C \<subseteq> C'" by (simp add: C'_def)
    with pre have pre': "\<forall>k. n < k \<and> k \<le> length remote \<longrightarrow> take k remote \<in> C'"
      by blast
    have "\<forall>name \<in> fst ` {e \<in> set entries. is_directory_node (snd e)}. remote @ [name] \<in> C'"
    proof
      fix name
      assume "name \<in> fst ` {e \<in> set entries. is_directory_node (snd e)}"
      then have "name \<in> set dirnames" by (auto simp: dirnames_def)
      then have "CreateRemoteDirectory (remote @ [name]) \<in> set (creates @ uploads)"
        by (simp add: creates_def)
      then show "remote @ [name] \<in> C'"
        by (simp only: C'_def in_created_directories [symmetric]) simp
    qed
    with "1.IH" pre' have "parents_first n C' (spec_plan_below dirpath remote entries)"
      by blast
    with leaves have "parents_first n C ((creates @ uploads) @ spec_plan_below dirpath remote entries)"
      unfolding C'_def by (simp only: parents_first_append simp_thms)
    then show "parents_first n C (spec_plan_level dirpath remote entries)"
      by (simp add: creates_def uploads_def dirnames_def)
  qed
next
  case (2 dirpath remote)
  show ?case by simp
next
  case (3 dirpath remote name node entries)
  show ?case
  proof (intro allI impI)
    fix C
    assume a: "(\<forall>k. n < k \<and> k \<le> length remote \<longrightarrow> take k remote \<in> C) \<and>
        (\<forall>name' \<in> fst ` {e \<in> set ((name, node) # entries). is_directory_node (snd e)}.
           remote @ [name'] \<in> C)"
    then have pre: "\<forall>k. n < k \<and> k \<le> length remote \<longrightarrow> take k remote \<in> C"
      and dirs: "\<forall>name' \<in> fst ` {e \<in> set entries. is_directory_node (snd e)}. remote @ [name'] \<in> C"
      by auto
    define first where "first =
        (case node of
           Directory link sub \<Rightarrow>
             if link then [] else spec_plan_level (posixpath_join dirpath name) (remote @ [name]) sub
         | _ \<Rightarrow> [])"
    define C' where "C' = C \<union> set (created_directories first)"
    have f: "parents_first n C first"
    proof (cases node)
      case RegularFile
      then show ?thesis by (simp add: first_def)
    next
      case Special
      then show ?thesis by (simp add: first_def)
    next
      case (Directory link sub)
      show ?thesis
      proof (cases link)
        case True
        with Directory show ?thesis by (simp add: first_def)
      next
        case False
        from a Directory have here: "remote @ [name] \<in> C" by force
        have "\<forall>k. n < k \<and> k \<le> length (remote @ [name]) \<longrightarrow> take k (remote @ [name]) \<in> C"
        proof (intro allI impI)
          fix k
          assume k: "n < k \<and> k \<le> length (remote @ [name])"
          show "take k (remote @ [name]) \<in> C"
          proof (cases "k \<le> length remote")
            case True
            with k pre show ?thesis by simp
          next
            case False
            with k have "k = Suc (length remote)" by simp
            with here show ?thesis by simp
          qed
        qed
        with "3.IH"(1) [OF Directory False]
        have "parents_first n C (spec_plan_level (posixpath_join dirpath name) (remote @ [name]) sub)"
          by blast
        with Directory False show ?thesis
          by (simp add: first_def del: spec_plan_level.simps)
      qed
    qed
    have "C \<subseteq> C'" by (simp add: C'_def)
    with pre dirs have "(\<forall>k. n < k \<and> k \<le> length remote \<longrightarrow> take k remote \<in> C') \<and>
        (\<forall>name' \<in> fst ` {e \<in> set entries. is_directory_node (snd e)}. remote @ [name'] \<in> C')"
      by blast
    with "3.IH"(2) have "parents_first n C' (spec_plan_below dirpath remote entries)"
      by blast
    with f have "parents_first n C (first @ spec_plan_below dirpath remote entries)"
      unfolding C'_def by (simp only: parents_first_append simp_thms)
    then show "parents_first n C (spec_plan_below dirpath remote ((name, node) # entries))"
      by (simp add: first_def del: spec_plan_level.simps)
  qed
qed

lemma parents_first_split:
  assumes "parents_first n C L" "L = xs @ a # ys"
    and "n < k" "k < length (put_action_path a)"
  shows "take k (put_action_path a) \<in> C \<or> CreateRemoteDirectory (take k (put_action_path a)) \<in> set xs"
proof -
  from assms(1,2) have "parents_first n (C \<union> set (created_directories xs)) (a # ys)"
    by (simp add: parents_first_append)
  with assms(3,4) have "take k (put_action_path a) \<in> C \<union> set (created_directories xs)"
    by simp
  then show ?thesis by (simp add: in_created_directories)
qed


lemma wf_entries_map_of:
  "wf_entries entries \<Longrightarrow> map_of entries name = Some (Directory link sub) \<Longrightarrow> wf_entries sub"
  by (induction entries rule: wf_entries.induct) (auto split: if_splits)

lemma wf_entries_lookup:
  "wf_entries entries \<Longrightarrow> fs_lookup entries names = Some (Directory link sub) \<Longrightarrow> wf_entries sub"
proof (induction entries names rule: fs_lookup.induct)
  case (1 entries)
  then show ?case by simp
next
  case (2 entries name names)
  show ?case
  proof (cases "map_of entries name")
    case None
    with "2.prems" show ?thesis by simp
  next
    case (Some node)
    show ?thesis
    proof (cases node)
      case RegularFile
      with Some "2.prems" show ?thesis by (simp split: if_splits)
    next
      case Special
      with Some "2.prems" show ?thesis by (simp split: if_splits)
    next
      case (Directory l es)
      with Some "2.prems"(1) have "wf_entries es" by (auto dest: wf_entries_map_of)
      moreover from Some Directory "2.prems"(2) have "fs_lookup es names = Some (Directory link sub)"
        by simp
      ultimately show ?thesis using "2.IH" [OF Some Directory] by blast
    qed
  qed
qed

lemma wf_entries_listdir: "wf_entries fs \<Longrightarrow> wf_entries (listdir fs path)"
  by (auto simp: listdir_def stat_def split: option.splits fsnode.splits dest: wf_entries_lookup)

section \<open>Claims about the parsers\<close>

text \<open>
  C6 (as amended).  For every path string whose segments are balanced, so that its normal
  form exists, the remote parser returns that normal form (a leading root marker resets
  the still empty sequence), and the local-relative parser returns it too unless the path
  has a leading root marker, which that parser rejects with a \<open>ValueError\<close>.
\<close>

theorem parsers_return_normal_form:
  "normal_form path = Some cs \<Longrightarrow>
     remote_path_to_remote_path_components path = Inr cs \<and>
     relative_local_path_to_relative_local_path_components path =
       (if has_root path then Inl (ValueError (''Invalid relative local path: '' @ path))
        else Inr cs)"
  by (simp add: remote_parser_normal_form local_parser_normal_form)

theorem parsers_return_normal_form_witness:
  "normal_form ''a/./b/../c'' = Some [''a'', ''c''] \<and>
   remote_path_to_remote_path_components ''a/./b/../c'' = Inr [''a'', ''c''] \<and>
   relative_local_path_to_relative_local_path_components ''a/./b/../c'' = Inr [''a'', ''c'']"
proof -
  have nf: "normal_form ''a/./b/../c'' = Some [''a'', ''c'']"
    by (simp add: normal_form_def path_segments_def)
  from parsers_return_normal_form [OF nf] nf show ?thesis
    by (simp add: has_root_def)
qed

text \<open>
  The claim as stated fails for the local-relative parser: the absolute path \<open>/a\<close> is
  balanced, with normal form \<open>[a]\<close>, and is rejected.
\<close>

theorem local_parser_rejects_balanced_absolute_path:
  "normal_form ''/a'' = Some [''a''] \<and>
   remote_path_to_remote_path_components ''/a'' = Inr [''a''] \<and>
   relative_local_path_to_relative_local_path_components ''/a'' =
     Inl (ValueError ''Invalid relative local path: /a'')"
  by (simp add: local_parser_normal_form remote_parser_normal_form normal_form_def
      path_segments_def has_root_def)

text \<open>
  C7 (as amended).  When some \<open>..\<close> is applied to the empty component sequence, both
  parsers fail with their \<open>ValueError\<close>.  The remote parser succeeds exactly when no such
  pop occurs; the local-relative parser succeeds exactly when no such pop occurs and the
  path has no leading root marker.
\<close>

theorem parsers_fail_on_pop_past_root:
  "(pops_past_root path \<longrightarrow>
      remote_path_to_remote_path_components path =
        Inl (ValueError (''Invalid remote path: '' @ path)) \<and>
      relative_local_path_to_relative_local_path_components path =
        Inl (ValueError (''Invalid relative local path: '' @ path))) \<and>
   ((\<exists>cs. remote_path_to_remote_path_components path = Inr cs) \<longleftrightarrow>
      \<not> pops_past_root path) \<and>
   ((\<exists>cs. relative_local_path_to_relative_local_path_components path = Inr cs) \<longleftrightarrow>
      \<not> pops_past_root path \<and> \<not> has_root path)"
  by (auto simp: remote_parser_normal_form local_parser_normal_form pops_past_root_def
      split: option.splits)

theorem parsers_fail_on_pop_past_root_witness:
  "pops_past_root ''/../x'' \<and>
   remote_path_to_remote_path_components ''/../x'' = Inl (ValueError ''Invalid remote path: /../x'') \<and>
   relative_local_path_to_relative_local_path_components ''/../x'' =
     Inl (ValueError ''Invalid relative local path: /../x'')"
proof -
  have pops: "pops_past_root ''/../x''"
    by (simp add: pops_past_root_def normal_form_def path_segments_def)
  from parsers_fail_on_pop_past_root [of "''/../x''"] pops show ?thesis
    by simp
qed

text \<open>
  The claim as stated fails for the local-relative parser: in \<open>/x\<close> no \<open>..\<close> is applied
  at all, and parsing fails all the same.
\<close>

theorem local_parser_fails_without_pop:
  "\<not> pops_past_root ''/x'' \<and>
   (\<forall>cs. relative_local_path_to_relative_local_path_components ''/x'' \<noteq> Inr cs)"
  by (simp add: local_parser_normal_form pops_past_root_def normal_form_def
      path_segments_def has_root_def)

section \<open>Claims about directory creation\<close>

text \<open>
  C10.  For every finite component sequence and whatever status codes the transport
  answers with, \<open>create_directories_from_remote_path_components\<close> returns: every
  recursive call is on the sequence without its last component, and the empty sequence
  returns at once.
\<close>

theorem create_directories_terminates:
  "\<exists>result. create_directories_from_remote_path_components self mkcol remote_path_components srv
      = Some result"
  using create_directories_returns_aux [of remote_path_components "length remote_path_components"]
  by simp

text \<open>
  C4 (as amended).  On the empty path \<open>create_directories_from_remote_path_components\<close>
  returns true and issues no request.  On a non-empty path it first attempts the direct
  creation at full depth and returns true if that succeeds; otherwise it ensures the path
  without its last segment and, if that succeeds, retries the direct creation once and
  returns its result, and returns false if the parent cannot be ensured.  On the
  reference server, when the path \<open>pre\<close> exists and none of the \<open>d \<ge> 1\<close> segments
  of \<open>miss\<close> below it does, the call succeeds, creates exactly these \<open>d\<close>
  collections and issues \<open>2 d - 1\<close> creation requests: one when only the final
  segment is missing.
\<close>

theorem create_directories_plan:
  "create_directories_from_remote_path_components self (logged mkcol) [] (srv, log) =
     Some (True, (srv, log)) \<and>
   (cs \<noteq> [] \<longrightarrow>
      create_directories_from_remote_path_components self request cs state =
        (case create_directory_from_remote_path_components self request cs state of
           (created, state1) \<Rightarrow>
             if created then Some (True, state1)
             else
               (case create_directories_from_remote_path_components self request (butlast cs) state1 of
                  None \<Rightarrow> None
                | Some (parents_created, state2) \<Rightarrow>
                    if parents_created
                    then Some (create_directory_from_remote_path_components self request cs state2)
                    else Some (False, state2)))) \<and>
   (list_all valid_component (pre @ miss) \<and> miss \<noteq> [] \<and>
    remote_path_components_to_href h p pre \<in> S \<and>
    (\<forall>k. 0 < k \<and> k \<le> length miss \<longrightarrow>
       remote_path_components_to_href h p (pre @ take k miss) \<notin> S) \<longrightarrow>
    (\<exists>reqs.
       create_directories_from_remote_path_components \<lparr>host = h, port = p\<rparr>
         (logged (dav_mkcol (remote_path_components_to_href h p []))) (pre @ miss) (S, []) =
       Some (True, (S \<union> (\<lambda>k. remote_path_components_to_href h p (pre @ take k miss)) ` {1..length miss},
                    reqs)) \<and>
       length reqs = 2 * length miss - 1))"
proof (intro conjI impI)
  show "create_directories_from_remote_path_components self (logged mkcol) [] (srv, log) =
     Some (True, (srv, log))"
    by (rule create_directories_empty)
next
  assume "cs \<noteq> []"
  then show "create_directories_from_remote_path_components self request cs state =
        (case create_directory_from_remote_path_components self request cs state of
           (created, state1) \<Rightarrow>
             if created then Some (True, state1)
             else
               (case create_directories_from_remote_path_components self request (butlast cs) state1 of
                  None \<Rightarrow> None
                | Some (parents_created, state2) \<Rightarrow>
                    if parents_created
                    then Some (create_directory_from_remote_path_components self request cs state2)
                    else Some (False, state2)))"
    by (rule create_directories_nonempty)
next
  assume "list_all valid_component (pre @ miss) \<and> miss \<noteq> [] \<and>
    remote_path_components_to_href h p pre \<in> S \<and>
    (\<forall>k. 0 < k \<and> k \<le> length miss \<longrightarrow>
       remote_path_components_to_href h p (pre @ take k miss) \<notin> S)"
  then have a: "list_all valid_component (pre @ miss)" "miss \<noteq> []"
    "remote_path_components_to_href h p pre \<in> S"
    "\<forall>k. 0 < k \<and> k \<le> length miss \<longrightarrow>
       remote_path_components_to_href h p (pre @ take k miss) \<notin> S"
    by blast+
  from ensure_missing_chain [OF a, of "[]"]
  show "\<exists>reqs.
       create_directories_from_remote_path_components \<lparr>host = h, port = p\<rparr>
         (logged (dav_mkcol (remote_path_components_to_href h p []))) (pre @ miss) (S, []) =
       Some (True, (S \<union> (\<lambda>k. remote_path_components_to_href h p (pre @ take k miss)) ` {1..length miss},
                    reqs)) \<and>
       length reqs = 2 * length miss - 1"
    by simp
qed

theorem create_directories_plan_witness:
  "[''a''] \<noteq> [] \<and>
   list_all valid_component ([] @ [''a'', ''b'']) \<and>
   remote_path_components_to_href ''localhost'' 8080 [] \<in> {''http://localhost:8080/''} \<and>
   (\<exists>S' reqs.
      create_directories_from_remote_path_components \<lparr>host = ''localhost'', port = 8080\<rparr>
        (logged (dav_mkcol (remote_path_components_to_href ''localhost'' 8080 []))) ([] @ [''a'', ''b''])
        ({''http://localhost:8080/''}, []) = Some (True, (S', reqs)) \<and>
      length reqs = 3)"
proof -
  have v: "list_all valid_component ([] @ [''a'', ''b''])"
    by (simp add: valid_component_def)
  have r: "remote_path_components_to_href ''localhost'' 8080 [] \<in> {''http://localhost:8080/''}"
    by (simp add: href_render)
  have m: "\<forall>k. 0 < k \<and> k \<le> length [''a'', ''b''] \<longrightarrow>
      remote_path_components_to_href ''localhost'' 8080 ([] @ take k [''a'', ''b''])
        \<notin> {''http://localhost:8080/''}"
  proof (intro allI impI)
    fix k :: nat
    assume "0 < k \<and> k \<le> length [''a'', ''b'']"
    then have "k = 1 \<or> k = 2" by auto
    then show "remote_path_components_to_href ''localhost'' 8080 ([] @ take k [''a'', ''b''])
        \<notin> {''http://localhost:8080/''}"
      by (auto simp: href_render)
  qed
  have ne: "[''a'', ''b''] \<noteq> []"
    by simp
  define S' where "S' = {''http://localhost:8080/''} \<union>
          (\<lambda>k. remote_path_components_to_href ''localhost'' 8080 ([] @ take k [''a'', ''b''])) `
             {1..length [''a'', ''b'']}"
  have "\<exists>reqs.
       create_directories_from_remote_path_components \<lparr>host = ''localhost'', port = 8080\<rparr>
         (logged (dav_mkcol (remote_path_components_to_href ''localhost'' 8080 []))) ([] @ [''a'', ''b''])
         ({''http://localhost:8080/''}, []) =
       Some (True, (S', reqs)) \<and>
       length reqs = 2 * length [''a'', ''b''] - 1"
    unfolding S'_def
    by (rule create_directories_plan [THEN conjunct2, THEN conjunct2, THEN mp])
       (intro conjI v ne r m)
  then obtain reqs where
    run: "create_directories_from_remote_path_components \<lparr>host = ''localhost'', port = 8080\<rparr>
         (logged (dav_mkcol (remote_path_components_to_href ''localhost'' 8080 []))) ([] @ [''a'', ''b''])
         ({''http://localhost:8080/''}, []) = Some (True, (S', reqs))"
    and "length reqs = 2 * length [''a'', ''b''] - 1"
    by (elim exE conjE)
  then have len: "length reqs = 3"
    by simp
  have "[''a''] \<noteq> ([] :: string list)"
    by simp
  with v r run len show ?thesis
    by (intro conjI exI [of _ S'] exI [of _ reqs])
qed


text \<open>
  The claim as stated counts two requests when the immediate parent exists and the final
  segment does not.  On the reference server with the root and \<open>/a\<close>, creating
  \<open>/a/b\<close> succeeds at the first attempt: the log holds one request.
\<close>

theorem one_request_when_parent_exists:
  "create_directories_from_remote_path_components \<lparr>host = ''localhost'', port = 8080\<rparr>
     (logged (dav_mkcol ''http://localhost:8080/'')) [''a'', ''b'']
     ({''http://localhost:8080/'', ''http://localhost:8080/a''}, []) =
   Some (True, ({''http://localhost:8080/a/b'', ''http://localhost:8080/'', ''http://localhost:8080/a''},
                [''http://localhost:8080/a/b'']))"
  by (subst create_directories_from_remote_path_components.simps)
     (simp add: create_directory_from_remote_path_components_def logged_def dav_mkcol_def
        url_parent_def href_render Let_def)

section \<open>Claims about classification\<close>

text \<open>
  C1.  For every target path and every listing whose locators resolve to the entries
  \<open>listings\<close>, \<open>list_remote_file_or_directory\<close> decides on the dictionary built from
  the entries: \<open>NotFound\<close> when the target is not a key, \<open>IsFile\<close> of the target when
  its flag is false, and \<open>IsDirectory\<close> when its flag is true, with two lists of
  distinct keys that are disjoint, do not contain the target, and together hold every
  other entry path, each in the list its flag says.
\<close>

theorem list_remote_file_or_directory_classifies:
  assumes "iterate_listings_and_is_directories cwd self propfind target srv = (Inr listings, srv')"
  shows "\<exists>result.
     list_remote_file_or_directory cwd self propfind target srv = (Inr result, srv') \<and>
     (case map_of (dict listings) target of
        None \<Rightarrow> result = NotFound
      | Some False \<Rightarrow> result = IsFile target
      | Some True \<Rightarrow>
          (\<exists>fs ds. result = IsDirectory fs ds \<and>
             set fs = {p. p \<noteq> target \<and> map_of (dict listings) p = Some False} \<and>
             set ds = {p. p \<noteq> target \<and> map_of (dict listings) p = Some True} \<and>
             set fs \<inter> set ds = {} \<and>
             set fs \<union> set ds = fst ` set listings - {target} \<and>
             distinct fs \<and> distinct ds))"
proof -
  from assms have
    "list_remote_file_or_directory cwd self propfind target srv =
       (Inr (classify_listings target listings), srv')"
    by (simp add: list_remote_file_or_directory_def)
  then show ?thesis
    by (intro exI [of _ "classify_listings target listings"] conjI)
       (assumption, rule classify_listings_cases)
qed

theorem list_remote_file_or_directory_classifies_witness:
  "iterate_listings_and_is_directories ''/'' \<lparr>host = ''localhost'', port = 8080\<rparr>
     (\<lambda>url srv. ((207, [(Some ''/a/'', True), (Some ''/a/f.txt'', False), (None, False),
                          (Some ''http://localhost:8080/a/sub/'', True)]), srv)) [''a''] ()
     = (Inr [([''a''], True), ([''a'', ''f.txt''], False), ([''a'', ''sub''], True)], ()) \<and>
   (\<exists>fs ds.
      list_remote_file_or_directory ''/'' \<lparr>host = ''localhost'', port = 8080\<rparr>
        (\<lambda>url srv. ((207, [(Some ''/a/'', True), (Some ''/a/f.txt'', False), (None, False),
                          (Some ''http://localhost:8080/a/sub/'', True)]), srv)) [''a''] ()
        = (Inr (IsDirectory fs ds), ()) \<and>
      set fs = {[''a'', ''f.txt'']} \<and> set ds = {[''a'', ''sub'']})"
proof -
  let ?L = "[([''a''], True), ([''a'', ''f.txt''], False), ([''a'', ''sub''], True)]"
  have h: "iterate_listings_and_is_directories ''/'' \<lparr>host = ''localhost'', port = 8080\<rparr>
     (\<lambda>url srv. ((207, [(Some ''/a/'', True), (Some ''/a/f.txt'', False), (None, False),
                          (Some ''http://localhost:8080/a/sub/'', True)]), srv)) [''a''] ()
     = (Inr ?L, ())"
    by (simp add: iterate_listings_and_is_directories_def href_eval)
  have m: "map_of (dict ?L) = [[''a''] \<mapsto> True, [''a'', ''f.txt''] \<mapsto> False, [''a'', ''sub''] \<mapsto> True]"
    by (simp add: map_of_dict fun_eq_iff)
  from list_remote_file_or_directory_classifies [OF h] obtain fs ds where
    r: "list_remote_file_or_directory ''/'' \<lparr>host = ''localhost'', port = 8080\<rparr>
        (\<lambda>url srv. ((207, [(Some ''/a/'', True), (Some ''/a/f.txt'', False), (None, False),
                          (Some ''http://localhost:8080/a/sub/'', True)]), srv)) [''a''] ()
        = (Inr (IsDirectory fs ds), ())"
    and fs: "set fs = {p. p \<noteq> [''a''] \<and> map_of (dict ?L) p = Some False}"
    and ds: "set ds = {p. p \<noteq> [''a''] \<and> map_of (dict ?L) p = Some True}"
    unfolding m by auto
  have "set fs = {[''a'', ''f.txt'']}"
    unfolding fs m by (auto split: if_splits)
  moreover have "set ds = {[''a'', ''sub'']}"
    unfolding ds m by (auto split: if_splits)
  ultimately show ?thesis using h r by blast
qed

section \<open>Claims about locators\<close>

text \<open>
  C5.  For any host, port and working directory, and any component sequence \<open>cs\<close>
  that one of the two path parsers returns, the locator rendered from \<open>cs\<close> is parsed
  back to \<open>cs\<close>; hence rendering what was parsed from that locator gives the locator
  again.
\<close>

theorem locator_round_trip:
  assumes "remote_path_to_remote_path_components path = Inr cs \<or>
     relative_local_path_to_relative_local_path_components path = Inr cs"
  shows "href_to_remote_path_components cwd h p (remote_path_components_to_href h p cs) = Inr cs \<and>
     map_sum id (remote_path_components_to_href h p)
       (href_to_remote_path_components cwd h p (remote_path_components_to_href h p cs)) =
     Inr (remote_path_components_to_href h p cs)"
proof -
  from assms have "list_all valid_component cs"
    by (rule parsed_components_valid)
  then have "href_to_remote_path_components cwd h p (remote_path_components_to_href h p cs) = Inr cs"
    by (rule href_round_trip)
  then show ?thesis by simp
qed

theorem locator_round_trip_witness:
  "remote_path_to_remote_path_components ''/a b/./c/../d'' = Inr [''a b'', ''d''] \<and>
   remote_path_components_to_href ''localhost'' 8080 [''a b'', ''d''] =
     ''http://localhost:8080/a%20b/d'' \<and>
   href_to_remote_path_components ''/home/user'' ''localhost'' 8080 ''http://localhost:8080/a%20b/d'' =
     Inr [''a b'', ''d'']"
proof -
  have parsed: "remote_path_to_remote_path_components ''/a b/./c/../d'' = Inr [''a b'', ''d'']"
    by (simp add: remote_parser_normal_form normal_form_def path_segments_def)
  have href: "remote_path_components_to_href ''localhost'' 8080 [''a b'', ''d''] =
      ''http://localhost:8080/a%20b/d''"
    by (simp add: remote_path_components_to_href_def str_of_int_def str_of_nat.simps quote_def
        quote_byte_def always_safe_def hex_digit_def)
  from locator_round_trip [OF disjI1, OF parsed, of "''/home/user''" "''localhost''" 8080]
  show ?thesis
    unfolding href using parsed by simp
qed

section \<open>Claims about the get planner\<close>

text \<open>
  C2 (as amended).  With fuel for at least one call, \<open>iterate_get_actions\<close> follows the
  classification of the remote path.  For \<open>IsFile\<close> of a non-empty path it emits exactly
  one \<open>DownloadRemoteFile\<close>, whose local path is the prefix extended with the last
  component.  For \<open>NotFound\<close> it emits nothing and raises nothing.  For \<open>IsDirectory\<close>
  whose child files are all non-empty paths it emits, in this order: unless the remote
  path is the root, \<open>CreateLocalDirectory\<close> for the prefix extended with the last
  component, which becomes the new prefix (for the root nothing is emitted and the prefix
  stays); one \<open>DownloadRemoteFile\<close> for every child file, under the new prefix; and for
  every child directory in turn the stream planned for it under the new prefix, with the
  remaining fuel.
\<close>

theorem get_plan_follows_classification:
  "(list_remote_file_or_directory cwd self propfind cs srv = (Inr (IsFile file), srv1) \<and> file \<noteq> [] \<longrightarrow>
      iterate_get_actions (Suc fuel) cwd self propfind cs prefix srv =
        Some (([DownloadRemoteFile file (prefix @ [last file])], None), srv1)) \<and>
   (list_remote_file_or_directory cwd self propfind cs srv = (Inr NotFound, srv1) \<longrightarrow>
      iterate_get_actions (Suc fuel) cwd self propfind cs prefix srv = Some (([], None), srv1)) \<and>
   (list_remote_file_or_directory cwd self propfind cs srv = (Inr (IsDirectory files directories), srv1) \<and>
    [] \<notin> set files \<longrightarrow>
      iterate_get_actions (Suc fuel) cwd self propfind cs prefix srv =
        map_option
          (\<lambda>((actions, raised), srv2).
             (((if cs = [] then [] else [CreateLocalDirectory (prefix @ [last cs])]) @
               map (\<lambda>f. DownloadRemoteFile f
                      ((if cs = [] then prefix else prefix @ [last cs]) @ [last f])) files @
               actions, raised), srv2))
          (yield_from_each
             (\<lambda>d. iterate_get_actions fuel cwd self propfind d
                    (if cs = [] then prefix else prefix @ [last cs]))
             directories srv1))"
proof (intro conjI impI)
  assume "list_remote_file_or_directory cwd self propfind cs srv = (Inr (IsFile file), srv1) \<and> file \<noteq> []"
  then show "iterate_get_actions (Suc fuel) cwd self propfind cs prefix srv =
        Some (([DownloadRemoteFile file (prefix @ [last file])], None), srv1)"
    by simp
next
  assume "list_remote_file_or_directory cwd self propfind cs srv = (Inr NotFound, srv1)"
  then show "iterate_get_actions (Suc fuel) cwd self propfind cs prefix srv = Some (([], None), srv1)"
    by simp
next
  assume a: "list_remote_file_or_directory cwd self propfind cs srv =
      (Inr (IsDirectory files directories), srv1) \<and> [] \<notin> set files"
  then have d: "download_files new_prefix files =
       (map (\<lambda>f. DownloadRemoteFile f (new_prefix @ [last f])) files, None)" for new_prefix
    by (simp add: download_files_all)
  from a show "iterate_get_actions (Suc fuel) cwd self propfind cs prefix srv =
        map_option
          (\<lambda>((actions, raised), srv2).
             (((if cs = [] then [] else [CreateLocalDirectory (prefix @ [last cs])]) @
               map (\<lambda>f. DownloadRemoteFile f
                      ((if cs = [] then prefix else prefix @ [last cs]) @ [last f])) files @
               actions, raised), srv2))
          (yield_from_each
             (\<lambda>d. iterate_get_actions fuel cwd self propfind d
                    (if cs = [] then prefix else prefix @ [last cs]))
             directories srv1)"
    by (cases "cs = []") (simp_all add: d Let_def split: option.splits prod.splits)
qed

theorem get_plan_follows_classification_witness:
  "iterate_get_actions (Suc (Suc 0)) ''/home'' \<lparr>host = ''localhost'', port = 8080\<rparr> scenario_get [] [] () =
     Some (([DownloadRemoteFile [''a.txt''] [''a.txt''],
             CreateLocalDirectory [''b''],
             DownloadRemoteFile [''b'', ''c.txt''] [''b'', ''c.txt'']], None), ()) \<and>
   iterate_get_actions (Suc 0) ''/home'' \<lparr>host = ''localhost'', port = 8080\<rparr> scenario_get
       [''a.txt''] [''x''] () =
     Some (([DownloadRemoteFile [''a.txt''] [''x'', ''a.txt'']], None), ()) \<and>
   iterate_get_actions (Suc 0) ''/home'' \<lparr>host = ''localhost'', port = 8080\<rparr> scenario_get
       [''missing''] [''x''] () =
     Some (([], None), ())"
proof -
  let ?c = "\<lparr>host = ''localhost'', port = 8080\<rparr>"
  have at_root: "list_remote_file_or_directory ''/home'' ?c scenario_get [] () =
      (Inr (IsDirectory [[''a.txt'']] [[''b'']]), ()) \<and> [] \<notin> set [[''a.txt'']]"
    by (simp add: listing_eval scenario_get_def)
  have at_b: "list_remote_file_or_directory ''/home'' ?c scenario_get [''b''] () =
      (Inr (IsDirectory [[''b'', ''c.txt'']] []), ())"
    by (simp add: listing_eval scenario_get_def)
  have at_file: "list_remote_file_or_directory ''/home'' ?c scenario_get [''a.txt''] () =
      (Inr (IsFile [''a.txt'']), ()) \<and> [''a.txt''] \<noteq> []"
    by (simp add: listing_eval scenario_get_def)
  have at_missing: "list_remote_file_or_directory ''/home'' ?c scenario_get [''missing''] () =
      (Inr NotFound, ())"
    by (simp add: listing_eval scenario_get_def)
  have "iterate_get_actions (Suc (Suc 0)) ''/home'' ?c scenario_get [] [] () =
     Some (([DownloadRemoteFile [''a.txt''] [''a.txt''],
             CreateLocalDirectory [''b''],
             DownloadRemoteFile [''b'', ''c.txt''] [''b'', ''c.txt'']], None), ())"
    using get_plan_follows_classification
      [where cwd = "''/home''" and self = ?c and propfind = scenario_get and cs = "[]"
          and srv = "()" and fuel = "Suc 0" and prefix = "[]",
        THEN conjunct2, THEN conjunct2, THEN mp, OF at_root]
    by (simp add: at_b)
  moreover have "iterate_get_actions (Suc 0) ''/home'' ?c scenario_get [''a.txt''] [''x''] () =
     Some (([DownloadRemoteFile [''a.txt''] [''x'', ''a.txt'']], None), ())"
    using get_plan_follows_classification
      [where cwd = "''/home''" and self = ?c and propfind = scenario_get and cs = "[''a.txt'']"
          and srv = "()" and fuel = 0 and prefix = "[''x'']",
        THEN conjunct1, THEN mp, OF at_file]
    by simp
  moreover have "iterate_get_actions (Suc 0) ''/home'' ?c scenario_get [''missing''] [''x''] () =
     Some (([], None), ())"
    using get_plan_follows_classification
      [where cwd = "''/home''" and self = ?c and propfind = scenario_get and cs = "[''missing'']"
          and srv = "()" and fuel = 0 and prefix = "[''x'']",
        THEN conjunct2, THEN conjunct1, THEN mp, OF at_missing]
    by simp
  ultimately show ?thesis by (intro conjI)
qed


text \<open>
  The claim as stated fails where the classified file is the root, which has no last
  component: for a server that lists the root without a collection marker, the planner
  emits no action and ends with an \<open>IndexError\<close>.
\<close>

theorem root_file_raises_index_error:
  "list_remote_file_or_directory ''/'' \<lparr>host = ''localhost'', port = 8080\<rparr>
     (\<lambda>url srv. ((207, [(Some ''/'', False)]), srv)) [] () = (Inr (IsFile []), ()) \<and>
   iterate_get_actions (Suc 0) ''/'' \<lparr>host = ''localhost'', port = 8080\<rparr>
     (\<lambda>url srv. ((207, [(Some ''/'', False)]), srv)) [] [] () = Some (([], Some IndexError), ())"
  by (simp add: listing_eval)

section \<open>Claims about the put planner\<close>

text \<open>
  C9.  For every local path whose absolute form has an empty basename, whatever the file
  system holds there (the root is a directory), \<open>iterate_put_actions\<close> emits nothing
  and raises the \<open>ValueError\<close> for an invalid local path.  And every action it ever
  emits carries a path that extends the given remote prefix by at least one segment, the
  first of which is not empty.
\<close>

theorem put_plan_rejects_empty_basename:
  "(basename (abspath cwd local_path) = [] \<longrightarrow>
      iterate_put_actions cwd fs local_path prefix =
        ([], Some (ValueError (''Invalid local path: '' @ local_path)))) \<and>
   (\<forall>a \<in> set (fst (iterate_put_actions cwd fs local_path prefix)).
      \<exists>seg rest. seg \<noteq> [] \<and> put_action_path a = prefix @ seg # rest)"
proof (intro conjI impI ballI)
  assume "basename (abspath cwd local_path) = []"
  then show "iterate_put_actions cwd fs local_path prefix =
        ([], Some (ValueError (''Invalid local path: '' @ local_path)))"
    by (simp add: iterate_put_actions_cases)
next
  fix a
  assume a: "a \<in> set (fst (iterate_put_actions cwd fs local_path prefix))"
  define top_path where "top_path = abspath cwd local_path"
  define base where "base = basename top_path"
  define walked where "walked = walk_actions cwd top_path (prefix @ [base])
      (os_walk top_path (listdir fs top_path))"
  note res = iterate_put_actions_cases [of cwd fs local_path prefix,
      folded top_path_def, folded base_def, folded walked_def]
  show "\<exists>seg rest. seg \<noteq> [] \<and> put_action_path a = prefix @ seg # rest"
  proof (cases "base \<noteq> [] \<and> isfile fs top_path")
    case True
    with a have "a = UploadLocalFile top_path (prefix @ [base])"
      unfolding res by simp
    with True show ?thesis by simp
  next
    case False
    note not_file = this
    show ?thesis
    proof (cases "base \<noteq> [] \<and> isdir fs top_path")
      case True
      with not_file a have "a = CreateRemoteDirectory (prefix @ [base]) \<or> a \<in> set (fst walked)"
        unfolding res by auto
      then show ?thesis
      proof
        assume "a = CreateRemoteDirectory (prefix @ [base])"
        with True show ?thesis by simp
      next
        assume "a \<in> set (fst walked)"
        then obtain rest where "rest \<noteq> []" "put_action_path a = (prefix @ [base]) @ rest"
          unfolding walked_def using walk_actions_paths by blast
        with True show ?thesis by simp
      qed
    next
      case False
      with not_file a show ?thesis
        unfolding res by (auto split: if_splits)
    qed
  qed
qed

theorem put_plan_rejects_empty_basename_witness:
  "basename (abspath ''/home'' ''/'') = [] \<and>
   isdir scenario_fs (abspath ''/home'' ''/'') \<and>
   iterate_put_actions ''/home'' scenario_fs ''/'' [''dest''] =
     ([], Some (ValueError ''Invalid local path: /'')) \<and>
   UploadLocalFile ''/home/a/f.txt'' [''dest'', ''a'', ''f.txt'']
     \<in> set (fst (iterate_put_actions ''/home'' scenario_fs ''a'' [''dest''])) \<and>
   (\<exists>seg rest. seg \<noteq> [] \<and>
      put_action_path (UploadLocalFile ''/home/a/f.txt'' [''dest'', ''a'', ''f.txt'']) =
        [''dest''] @ seg # rest)"
proof -
  have b: "basename (abspath ''/home'' ''/'') = []"
    by (simp add: put_eval)
  have d: "isdir scenario_fs (abspath ''/home'' ''/'')"
    by (simp add: put_eval)
  have m: "UploadLocalFile ''/home/a/f.txt'' [''dest'', ''a'', ''f.txt'']
      \<in> set (fst (iterate_put_actions ''/home'' scenario_fs ''a'' [''dest'']))"
    by (simp add: scenario_put)
  note root = put_plan_rejects_empty_basename [THEN conjunct1, THEN mp, OF b]
  note inside = put_plan_rejects_empty_basename [THEN conjunct2, THEN bspec, OF m]
  from b d m root [of scenario_fs "[''dest'']"] inside show ?thesis
    by simp
qed


text \<open>
  C8 (as amended).  \<open>iterate_put_actions\<close> raises the \<open>ValueError\<close> for an invalid
  local path exactly when the absolute path has an empty basename or is neither a
  regular file nor a directory; it then emits no action.
\<close>

theorem put_plan_unsupported_path:
  "(snd (iterate_put_actions cwd fs local_path prefix) =
      Some (ValueError (''Invalid local path: '' @ local_path)) \<longleftrightarrow>
    basename (abspath cwd local_path) = [] \<or>
    (\<not> isfile fs (abspath cwd local_path) \<and> \<not> isdir fs (abspath cwd local_path))) \<and>
   (iterate_put_actions cwd fs local_path prefix =
      ([], Some (ValueError (''Invalid local path: '' @ local_path))) \<longleftrightarrow>
    basename (abspath cwd local_path) = [] \<or>
    (\<not> isfile fs (abspath cwd local_path) \<and> \<not> isdir fs (abspath cwd local_path)))"
proof -
  define top_path where "top_path = abspath cwd local_path"
  define base where "base = basename top_path"
  define walked where "walked = walk_actions cwd top_path (prefix @ [base])
      (os_walk top_path (listdir fs top_path))"
  note res = iterate_put_actions_cases [of cwd fs local_path prefix,
      folded top_path_def, folded base_def, folded walked_def]
  have w: "snd walked \<noteq> Some (ValueError (''Invalid local path: '' @ local_path))"
    unfolding walked_def by (rule walk_actions_error)
  show ?thesis
    unfolding top_path_def [symmetric] base_def [symmetric] res using w by auto
qed


theorem put_plan_unsupported_path_witness:
  "\<not> isfile scenario_fs (abspath ''/home'' ''dev'') \<and>
   \<not> isdir scenario_fs (abspath ''/home'' ''dev'') \<and>
   iterate_put_actions ''/home'' scenario_fs ''dev'' [] =
     ([], Some (ValueError ''Invalid local path: dev''))"
proof -
  have n: "\<not> isfile scenario_fs (abspath ''/home'' ''dev'')"
    "\<not> isdir scenario_fs (abspath ''/home'' ''dev'')"
    by (simp_all add: put_eval)
  with put_plan_unsupported_path [of "''/home''" scenario_fs "''dev''" "[]", THEN conjunct2]
  show ?thesis by simp
qed


text \<open>
  The claim as stated says that the error is raised only for paths that are neither a
  file nor a directory.  The root is a directory, and it is rejected.
\<close>

theorem root_directory_is_rejected:
  "isdir scenario_fs (abspath ''/home'' ''/'') \<and>
   iterate_put_actions ''/home'' scenario_fs ''/'' [] =
     ([], Some (ValueError ''Invalid local path: /''))"
  by (simp add: put_eval)


text \<open>
  C3 (as amended).  On a file system whose entries are named by path components, from an
  absolute working directory: for a local path that is a regular file,
  \<open>iterate_put_actions\<close> emits exactly one \<open>UploadLocalFile\<close>, addressed at the prefix
  extended with the basename, and raises nothing.  For a local path that is a directory
  with a non-empty basename, it emits \<open>CreateRemoteDirectory\<close> for the prefix extended
  with the basename and then the plan of the specification, level by level, and raises
  nothing; and in that stream, the create action of every directory strictly between the
  prefix and an action's path comes before the action.
\<close>

theorem put_plan_order:
  assumes cwd: "startswith cwd ''/''" and wf: "wf_entries fs"
  shows "(isfile fs (abspath cwd local_path) \<longrightarrow>
      iterate_put_actions cwd fs local_path prefix =
        ([UploadLocalFile (abspath cwd local_path) (prefix @ [basename (abspath cwd local_path)])],
         None)) \<and>
   (isdir fs (abspath cwd local_path) \<and> basename (abspath cwd local_path) \<noteq> [] \<longrightarrow>
      iterate_put_actions cwd fs local_path prefix =
        (CreateRemoteDirectory (prefix @ [basename (abspath cwd local_path)]) #
         spec_plan_level (abspath cwd local_path) (prefix @ [basename (abspath cwd local_path)])
           (listdir fs (abspath cwd local_path)),
         None) \<and>
      (\<forall>xs a ys k.
         fst (iterate_put_actions cwd fs local_path prefix) = xs @ a # ys \<and>
         length prefix < k \<and> k < length (put_action_path a) \<longrightarrow>
         CreateRemoteDirectory (take k (put_action_path a)) \<in> set xs))"
proof -
  define top_path where "top_path = abspath cwd local_path"
  from abspath_form [OF cwd, of local_path] obtain i S where
    i: "0 < i" and S: "list_all valid_component S"
    and top: "top_path = replicate i (CHR ''/'') @ str_join ''/'' S"
    unfolding top_path_def by blast
  note facts = absolute_form_facts [OF i S top]
  have stat: "stat fs top_path = fs_lookup fs S"
    by (simp add: stat_def facts(1))
  have file_part: "iterate_put_actions cwd fs local_path prefix =
      ([UploadLocalFile top_path (prefix @ [basename top_path])], None)"
    if f: "isfile fs top_path"
  proof -
    from f stat have "S \<noteq> []"
      by (auto simp: isfile_def)
    with S have "last S \<noteq> []"
      by (auto simp: list_all_iff valid_component_def dest: last_in_set)
    with \<open>S \<noteq> []\<close> have "basename top_path \<noteq> []"
      by (simp add: facts(2))
    with f show ?thesis
      by (simp add: iterate_put_actions_cases top_path_def)
  qed
  have dir_part: "iterate_put_actions cwd fs local_path prefix =
        (CreateRemoteDirectory (prefix @ [basename top_path]) #
         spec_plan_level top_path (prefix @ [basename top_path]) (listdir fs top_path), None) \<and>
      (\<forall>xs a ys k.
         fst (iterate_put_actions cwd fs local_path prefix) = xs @ a # ys \<and>
         length prefix < k \<and> k < length (put_action_path a) \<longrightarrow>
         CreateRemoteDirectory (take k (put_action_path a)) \<in> set xs)"
    if d: "isdir fs top_path" and b: "basename top_path \<noteq> []"
  proof -
    define pwb where "pwb = prefix @ [basename top_path]"
    define entries where "entries = listdir fs top_path"
    from b have ne: "S \<noteq> []" by (auto simp: facts(2))
    with b have base: "basename top_path = last S" by (simp add: facts(2))
    from ne S have vb: "valid_component (last S)"
      by (auto simp: list_all_iff dest: last_in_set)
    have P: "top_path \<noteq> []" "startswith top_path ''/''" "last top_path \<noteq> CHR ''/''"
      using facts(3) facts(4) [OF ne] by (auto simp: startswith_def)
    have D: "last (str_split (CHR ''/'') top_path) \<noteq> ''.''"
        "last (str_split (CHR ''/'') top_path) \<noteq> ''..''"
      using vb base by (simp_all add: basename_def valid_component_def)
    have not_file: "\<not> isfile fs top_path"
      using d by (auto simp: isfile_def isdir_def)
    have wfe: "wf_entries entries"
      unfolding entries_def using wf by (rule wf_entries_listdir)
    have "top_path = below top_path []"
      by (simp add: below_Nil)
    with walk_refines_plan_aux(1) [OF P D, of top_path entries cwd pwb] wfe
    have walked: "walk_actions cwd top_path pwb (os_walk top_path entries) =
        (spec_plan_level top_path pwb entries, None)"
      by (auto dest: spec [where x = "[]"] simp del: os_walk.simps spec_plan_level.simps)
    have res: "iterate_put_actions cwd fs local_path prefix =
        (CreateRemoteDirectory pwb # spec_plan_level top_path pwb entries, None)"
      using d b not_file walked
      by (simp add: iterate_put_actions_cases top_path_def [symmetric] pwb_def [symmetric]
          entries_def [symmetric] del: os_walk.simps spec_plan_level.simps)
    have "\<forall>k. length prefix < k \<and> k \<le> length pwb \<longrightarrow> take k pwb \<in> {pwb}"
      by (auto simp: pwb_def)
    with plan_parents_first_aux(1) [of "length prefix" pwb top_path entries]
    have "parents_first (length prefix) {pwb} (spec_plan_level top_path pwb entries)"
      by blast
    then have ordered: "parents_first (length prefix) {}
        (CreateRemoteDirectory pwb # spec_plan_level top_path pwb entries)"
      by (simp add: created_directories_def pwb_def del: spec_plan_level.simps)
    have "CreateRemoteDirectory (take k (put_action_path a)) \<in> set xs"
      if "fst (iterate_put_actions cwd fs local_path prefix) = xs @ a # ys"
        and "length prefix < k" and "k < length (put_action_path a)" for xs a ys k
      using parents_first_split [OF ordered _ that(2,3), of xs ys] that(1) res
      by simp
    with res show ?thesis
      unfolding pwb_def entries_def by blast
  qed
  from file_part dir_part show ?thesis
    unfolding top_path_def by blast
qed



theorem put_plan_order_witness:
  "startswith ''/home'' ''/'' \<and> wf_entries scenario_fs \<and>
   isfile scenario_fs (abspath ''/home'' ''a/f.txt'') \<and>
   iterate_put_actions ''/home'' scenario_fs ''a/f.txt'' [''dest''] =
     ([UploadLocalFile ''/home/a/f.txt'' [''dest'', ''f.txt'']], None) \<and>
   isdir scenario_fs (abspath ''/home'' ''a'') \<and> basename (abspath ''/home'' ''a'') \<noteq> [] \<and>
   iterate_put_actions ''/home'' scenario_fs ''a'' [''dest''] =
     ([CreateRemoteDirectory [''dest'', ''a''],
       CreateRemoteDirectory [''dest'', ''a'', ''sub''],
       UploadLocalFile ''/home/a/f.txt'' [''dest'', ''a'', ''f.txt'']], None) \<and>
   CreateRemoteDirectory [''dest'', ''a'']
     \<in> set [CreateRemoteDirectory [''dest'', ''a''],
            CreateRemoteDirectory [''dest'', ''a'', ''sub'']]"
proof -
  have c: "startswith ''/home'' ''/''"
    by (simp add: startswith_def)
  have w: "wf_entries scenario_fs"
    by (simp add: scenario_fs_def valid_component_def)
  have f: "isfile scenario_fs (abspath ''/home'' ''a/f.txt'')"
    by (simp add: put_eval)
  have d: "isdir scenario_fs (abspath ''/home'' ''a'') \<and> basename (abspath ''/home'' ''a'') \<noteq> []"
    by (simp add: put_eval)
  note at_file = put_plan_order [where prefix = "[''dest'']", OF c w, THEN conjunct1, THEN mp, OF f]
  note at_directory = put_plan_order [where prefix = "[''dest'']", OF c w, THEN conjunct2,
      THEN mp, OF d]
  from at_file
  have upload: "iterate_put_actions ''/home'' scenario_fs ''a/f.txt'' [''dest''] =
      ([UploadLocalFile ''/home/a/f.txt'' [''dest'', ''f.txt'']], None)"
    by (simp add: put_eval)
  from at_directory [THEN conjunct1]
  have plan: "iterate_put_actions ''/home'' scenario_fs ''a'' [''dest''] =
     ([CreateRemoteDirectory [''dest'', ''a''],
       CreateRemoteDirectory [''dest'', ''a'', ''sub''],
       UploadLocalFile ''/home/a/f.txt'' [''dest'', ''a'', ''f.txt'']], None)"
    by (simp add: put_eval)
  from at_directory [THEN conjunct2,
      THEN spec [where x = "[CreateRemoteDirectory [''dest'', ''a''],
        CreateRemoteDirectory [''dest'', ''a'', ''sub'']]"],
      THEN spec [where x = "UploadLocalFile ''/home/a/f.txt'' [''dest'', ''a'', ''f.txt'']"],
      THEN spec [where x = "[]"], THEN spec [where x = 2]] plan
  have before: "CreateRemoteDirectory [''dest'', ''a'']
     \<in> set [CreateRemoteDirectory [''dest'', ''a''],
            CreateRemoteDirectory [''dest'', ''a'', ''sub'']]"
    by simp
  from c w f d upload plan before show ?thesis
    by simp
qed

text \<open>
  The claim as stated promises the create action for every directory.  The root is a
  directory, its basename is empty, and no action is emitted for it.
\<close>

theorem root_directory_gets_no_create_action:
  "startswith ''/home'' ''/'' \<and> wf_entries scenario_fs \<and>
   isdir scenario_fs (abspath ''/home'' ''/'') \<and>
   \<not> (\<exists>rest. fst (iterate_put_actions ''/home'' scenario_fs ''/'' [''dest'']) =
         CreateRemoteDirectory ([''dest''] @ [basename (abspath ''/home'' ''/'')]) # rest)"
  by (simp add: put_eval valid_component_def)

end
